theory Spec2Isabelle
  imports Main "HOL-Library.AList"
begin

section \<open>The dynamic value model\<close>

text \<open>
  Template.cpp renders a part tree against a \<open>Poco::Dynamic::Var\<close>. The value classes
  (\<open>Var\<close>, \<open>Object\<close>, \<open>Array\<close>, \<open>Query\<close>) are not part of the sources at hand;
  only the operations Template.cpp calls on them are modelled.
\<close>

text \<open>
  Modelled from the spec: the value model \<open>Poco::Dynamic::Var\<close> is missing; the spec
  describes it as a tagged union of null/bool/number/string/ordered-object/array. \<open>VEmpty\<close>
  is the empty \<open>Var\<close> (\<open>isEmpty()\<close>), \<open>VObject\<close> a \<open>Var\<close> holding an \<open>Object::Ptr\<close>,
  \<open>VArray\<close> one holding an \<open>Array::Ptr\<close>. Fields are kept as an association list.
\<close>

datatype var =
    VEmpty
  | VBool bool
  | VInt int
  | VString string
  | VArray "var list"
  | VObject "(string \<times> var) list"

definition isEmpty :: "var \<Rightarrow> bool" where
  "isEmpty v = (case v of VEmpty \<Rightarrow> True | _ \<Rightarrow> False)"

definition isString :: "var \<Rightarrow> bool" where
  "isString v = (case v of VString s \<Rightarrow> True | _ \<Rightarrow> False)"

text \<open>\<open>data.type() == typeid(Object::Ptr)\<close>\<close>

definition is_object :: "var \<Rightarrow> bool" where
  "is_object v = (case v of VObject fs \<Rightarrow> True | _ \<Rightarrow> False)"

text \<open>
  Modelled from the spec: \<open>Object::set\<close> and \<open>Object::remove\<close> are missing; the spec
  requires "an object's ability to set/remove a named field". Setting replaces the value
  of an existing field or adds the field; removing deletes it. The object is shared
  through its pointer in the source, so the model returns the mutated context.
\<close>

definition object_set :: "string \<Rightarrow> var \<Rightarrow> var \<Rightarrow> var" where
  "object_set name v data =
     (case data of VObject fs \<Rightarrow> VObject (AList.update name v fs) | _ \<Rightarrow> data)"

definition object_remove :: "string \<Rightarrow> var \<Rightarrow> var" where
  "object_remove name data =
     (case data of VObject fs \<Rightarrow> VObject (AList.delete name fs) | _ \<Rightarrow> data)"

definition object_get :: "var \<Rightarrow> string \<Rightarrow> var option" where
  "object_get data name = (case data of VObject fs \<Rightarrow> map_of fs name | _ \<Rightarrow> None)"

definition has_field :: "var \<Rightarrow> string \<Rightarrow> bool" where
  "has_field data name = (case object_get data name of None \<Rightarrow> False | Some v \<Rightarrow> True)"

section \<open>The part tree\<close>

datatype logic_query =
    LogicQuery string
  | LogicExistQuery string
  | LogicElseQuery

text \<open>
  The classes derived from \<open>Part\<close>. \<open>LogicPart\<close> and \<open>LoopPart\<close> inherit the vector
  \<open>_parts\<close> of \<open>MultiPart\<close>; \<open>LogicPart\<close> adds the vector \<open>_queries\<close>, \<open>LoopPart\<close> the
  strings \<open>_name\<close> and \<open>_query\<close> (in this order).
\<close>

datatype part =
    StringPart string
  | MultiPart "part list"
  | EchoPart string
  | LogicPart "part list" "logic_query list"
  | LoopPart string string "part list"
  | IncludePart string

text \<open>
  The members of \<open>Template\<close> that Template.cpp uses: \<open>_parts\<close> (\<open>None\<close> is the null
  pointer), \<open>_currentPart\<close>, \<open>_partStack\<close> and \<open>_templatePath\<close>; the time stamp
  \<open>_parseTime\<close> plays no part. The constructors do not touch \<open>_partStack\<close>, so the stack
  of a new template is empty.

  \<open>parse(std::istream&)\<close> allocates a new tree and never deletes the one \<open>_parts\<close> pointed
  to before, so the trees of earlier parses stay allocated (\<open>leaked\<close>, oldest first), and
  pointers that \<open>_partStack\<close> kept from an earlier parse still point into them. A
  \<open>MultiPart*\<close> is the list of indices that leads to the node: first the number of the tree
  (the trees of earlier parses count from 0, the tree of \<open>_parts\<close> comes after them), then
  the child indices from the root of that tree down.
\<close>

type_synonym part_ptr = "nat list"

record template =
  parts :: "part option"
  currentPart :: "part_ptr option"
  partStack :: "part_ptr list"
  templatePath :: string
  leaked :: "part list"

datatype exn = JSONTemplateException string

text \<open>
  What ends a render other than returning: dereferencing the null \<open>_parts\<close> pointer, an
  exception of a parse started by an include, a null template handed out by the cache,
  and include nesting deeper than the call stack allows.
\<close>

datatype fault =
    NullDereference
  | ParseFailed exn
  | NullTemplate
  | StackExhausted

section \<open>Collaborators\<close>

text \<open>
  Modelled from the spec: the collaborators of the template engine are missing and are
  taken as parameters, with the interface the spec lists: \<open>find(path) \<rightarrow> value-or-empty\<close>
  (here \<open>find_path\<close>),
  \<open>findArray(path) \<rightarrow> array-or-null\<close>, \<open>toString\<close>, \<open>toBool\<close>; the source loader
  (\<open>fileContents p = None\<close> when no file exists at \<open>p\<close>); the optional process-wide template
  cache (\<open>cache = None\<close> when \<open>TemplateCache::instance()\<close> is null); and the three
  operations of \<open>Poco::Path\<close> that Template.cpp uses.
\<close>

record env =
  find_path :: "var \<Rightarrow> string \<Rightarrow> var"
  findArray :: "var \<Rightarrow> string \<Rightarrow> var list option"
  toString :: "var \<Rightarrow> string"
  toBool :: "var \<Rightarrow> bool"
  fileContents :: "string \<Rightarrow> string option"
  cache :: "(string \<Rightarrow> template option) option"
  isRelative :: "string \<Rightarrow> bool"
  joinPath :: "string \<Rightarrow> string \<Rightarrow> string"
  makeParent :: "string \<Rightarrow> string"

text \<open>\<open>value.convert<std::string>()\<close>: a \<open>Var\<close> holding a string converts to that string.\<close>

definition convert_string :: "env \<Rightarrow> var \<Rightarrow> string" where
  "convert_string e v = (case v of VString s \<Rightarrow> s | _ \<Rightarrow> toString e v)"

definition convert_bool :: "env \<Rightarrow> var \<Rightarrow> bool" where
  "convert_bool e v = toBool e v"

section \<open>Guards\<close>

text \<open>\<open>LogicQuery::apply\<close>, \<open>LogicExistQuery::apply\<close> and \<open>LogicElseQuery::apply\<close>.\<close>

fun apply_query :: "env \<Rightarrow> logic_query \<Rightarrow> var \<Rightarrow> bool" where
  "apply_query e (LogicQuery queryString) data =
     (let logic = False;
          v = find_path e data queryString
      in if \<not> isEmpty v
         then (if isString v
               then (let s = convert_string e v in \<not> (s = []))
               else convert_bool e v)
         else logic)"
| "apply_query e (LogicExistQuery queryString) data =
     (let v = find_path e data queryString in \<not> isEmpty v)"
| "apply_query e LogicElseQuery data = True"

section \<open>The character stream\<close>

text \<open>
  A \<open>std::istream\<close> over the template source: the characters not yet extracted and the
  state bits \<open>eofbit\<close> and \<open>failbit\<close>. Device errors are not modelled, so \<open>badbit\<close> is
  never set and \<open>in.bad()\<close> is false throughout.
\<close>

record istream =
  buf :: string
  eofbit :: bool
  failbit :: bool

definition istream_of :: "string \<Rightarrow> istream" where
  "istream_of s = \<lparr>buf = s, eofbit = False, failbit = False\<rparr>"

definition good :: "istream \<Rightarrow> bool" where
  "good s = (\<not> eofbit s \<and> \<not> failbit s)"

text \<open>\<open>in.get()\<close>: \<open>None\<close> is the value -1 (\<open>Traits::eof()\<close>).\<close>

definition get :: "istream \<Rightarrow> char option \<times> istream" where
  "get s =
     (if \<not> good s then (None, s\<lparr>failbit := True\<rparr>)
      else (case buf s of
              [] \<Rightarrow> (None, s\<lparr>eofbit := True, failbit := True\<rparr>)
            | c # cs \<Rightarrow> (Some c, s\<lparr>buf := cs\<rparr>)))"

definition peek :: "istream \<Rightarrow> char option \<times> istream" where
  "peek s =
     (if \<not> good s then (None, s\<lparr>failbit := True\<rparr>)
      else (case buf s of
              [] \<Rightarrow> (None, s\<lparr>eofbit := True\<rparr>)
            | c # cs \<Rightarrow> (Some c, s)))"

text \<open>\<open>in.putback(c)\<close> clears \<open>eofbit\<close> and then needs a stream in good state.\<close>

definition putback :: "char \<Rightarrow> istream \<Rightarrow> istream" where
  "putback c s =
     (let s1 = s\<lparr>eofbit := False\<rparr>
      in if \<not> good s1 then s1\<lparr>failbit := True\<rparr> else s1\<lparr>buf := c # buf s1\<rparr>)"

text \<open>
  Modelled from the spec: \<open>Poco::Ascii::isSpace\<close> is missing; the spec calls the characters
  it accepts whitespace. These are the six ASCII whitespace characters: space, horizontal
  tab, line feed, vertical tab, form feed and carriage return.
\<close>

definition isSpace :: "char \<Rightarrow> bool" where
  "isSpace c = (c = CHR '' '' \<or> c = CHR 0x09 \<or> c = CHR 0x0A \<or> c = CHR 0x0B
                \<or> c = CHR 0x0C \<or> c = CHR 0x0D)"

section \<open>The scanner\<close>

text \<open>\<open>Template::readWhiteSpace\<close>\<close>

function readWhiteSpace :: "istream \<Rightarrow> istream" where
  "readWhiteSpace s =
     (case peek s of
        (None, s1) \<Rightarrow> s1
      | (Some c, s1) \<Rightarrow> if isSpace c then readWhiteSpace (snd (get s1)) else s1)"
  by pat_completeness auto
termination
  by (relation "measure (\<lambda>s. length (buf s))")
     (auto simp: get_def peek_def split: if_splits list.splits)

text \<open>\<open>Template::readText\<close>: the loop, entered with the character read last.\<close>

function readText_while :: "string \<Rightarrow> char option \<Rightarrow> istream \<Rightarrow> string \<times> istream" where
  "readText_while text c s =
     (case c of
        None \<Rightarrow> (text, s)
      | Some ch \<Rightarrow>
          if ch = CHR ''<''
          then (case peek s of
                  (p, s1) \<Rightarrow>
                    if p = Some (CHR ''?'')
                    then (text, snd (get s1))
                    else (case get s1 of (c', s2) \<Rightarrow> readText_while (text @ [ch]) c' s2))
          else (case get s of (c', s2) \<Rightarrow> readText_while (text @ [ch]) c' s2))"
  by pat_completeness auto
termination
  by (relation "measure (\<lambda>(text, c, s). length (buf s) + (case c of None \<Rightarrow> 0 | Some ch \<Rightarrow> 1))")
     (auto simp: get_def peek_def split: if_splits list.splits)

definition readText :: "istream \<Rightarrow> string \<times> istream" where
  "readText s = (case get s of (c, s1) \<Rightarrow> readText_while [] c s1)"

text \<open>\<open>Template::readTemplateCommand\<close>\<close>

function readTemplateCommand_while :: "string \<Rightarrow> char option \<Rightarrow> istream \<Rightarrow> string \<times> istream" where
  "readTemplateCommand_while command c s =
     (case c of
        None \<Rightarrow> (command, s)
      | Some ch \<Rightarrow>
          if isSpace ch then (command, s)
          else (case (if ch = CHR ''?'' then peek s else (None, s)) of
                  (p, s1) \<Rightarrow>
                    if ch = CHR ''?'' \<and> p = Some (CHR ''>'')
                    then (command, putback ch s1)
                    else if ch = CHR ''='' \<and> length command = 0
                    then (''echo'', s1)
                    else (case get s1 of
                            (c', s2) \<Rightarrow> readTemplateCommand_while (command @ [ch]) c' s2)))"
  by pat_completeness auto
termination
  by (relation "measure (\<lambda>(w, c, s). length (buf s) + (case c of None \<Rightarrow> 0 | Some ch \<Rightarrow> 1))")
     (auto simp: get_def peek_def split: if_splits list.splits)

definition readTemplateCommand :: "istream \<Rightarrow> string \<times> istream" where
  "readTemplateCommand s =
     (case get (readWhiteSpace s) of (c, s1) \<Rightarrow> readTemplateCommand_while [] c s1)"

text \<open>\<open>Template::readWord\<close>\<close>

function readWord_while :: "string \<Rightarrow> istream \<Rightarrow> string \<times> istream" where
  "readWord_while word s =
     (case peek s of
        (None, s1) \<Rightarrow> (word, s1)
      | (Some c, s1) \<Rightarrow>
          if \<not> isSpace c then readWord_while (word @ [c]) (snd (get s1)) else (word, s1))"
  by pat_completeness auto
termination
  by (relation "measure (\<lambda>(w, s). length (buf s))")
     (auto simp: get_def peek_def split: if_splits list.splits)

definition readWord :: "istream \<Rightarrow> string \<times> istream" where
  "readWord s = readWord_while [] s"

text \<open>\<open>Template::readQuery\<close>\<close>

function readQuery_while :: "string \<Rightarrow> istream \<Rightarrow> string \<times> istream" where
  "readQuery_while word s =
     (case get s of
        (None, s1) \<Rightarrow> (word, s1)
      | (Some c, s1) \<Rightarrow>
          (case (if c = CHR ''?'' then peek s1 else (None, s1)) of
             (p, s2) \<Rightarrow>
               if c = CHR ''?'' \<and> p = Some (CHR ''>'')
               then (word, putback c s2)
               else if isSpace c then (word, s2)
               else readQuery_while (word @ [c]) s2))"
  by pat_completeness auto
termination
  by (relation "measure (\<lambda>(w, s). length (buf s))")
     (auto simp: get_def peek_def split: if_splits list.splits)

definition readQuery :: "istream \<Rightarrow> string \<times> istream" where
  "readQuery s = readQuery_while [] s"

text \<open>\<open>Template::readString\<close>\<close>

function readString_while :: "string \<Rightarrow> istream \<Rightarrow> string \<times> istream" where
  "readString_while str s =
     (case get s of
        (None, s1) \<Rightarrow> (str, s1)
      | (Some c, s1) \<Rightarrow>
          if c \<noteq> CHR 0x22 then readString_while (str @ [c]) s1 else (str, s1))"
  by pat_completeness auto
termination
  by (relation "measure (\<lambda>(w, s). length (buf s))")
     (auto simp: get_def peek_def split: if_splits list.splits)

definition readString :: "istream \<Rightarrow> string \<times> istream" where
  "readString s =
     (case get s of
        (c, s1) \<Rightarrow> if c = Some (CHR 0x22) then readString_while [] s1 else ([], s1))"

subsection \<open>The scanner never lengthens the input\<close>

lemma get_buf_le: "length (buf (snd (get s))) \<le> length (buf s)"
  by (simp add: get_def split: list.splits)

lemma get_Some_buf: "get s = (Some c, s1) \<Longrightarrow> Suc (length (buf s1)) = length (buf s)"
  by (auto simp: get_def split: if_splits list.splits)

lemma get_None_buf: "get s = (None, s1) \<Longrightarrow> buf s1 = buf s"
  by (auto simp: get_def split: if_splits list.splits)

lemma peek_buf: "peek s = (p, s1) \<Longrightarrow> buf s1 = buf s"
  by (auto simp: peek_def split: if_splits list.splits)

lemma putback_buf_le: "length (buf (putback c s)) \<le> Suc (length (buf s))"
  by (simp add: putback_def Let_def)

lemma readWhiteSpace_buf_le: "length (buf (readWhiteSpace s)) \<le> length (buf s)"
proof (induction s rule: readWhiteSpace.induct)
  case (1 s)
  obtain p s1 where ps: "peek s = (p, s1)" by (cases "peek s")
  show ?case
  proof (cases p)
    case None
    with ps show ?thesis by (simp add: peek_buf)
  next
    case (Some c)
    show ?thesis
    proof (cases "isSpace c")
      case True
      have "length (buf (readWhiteSpace (snd (get s1)))) \<le> length (buf (snd (get s1)))"
        using "1.IH" ps Some True by simp
      also have "\<dots> \<le> length (buf s1)" by (rule get_buf_le)
      finally show ?thesis using ps Some True by (simp add: peek_buf)
    next
      case False
      with ps Some show ?thesis by (simp add: peek_buf)
    qed
  qed
qed

lemma readText_while_buf_le: "length (buf (snd (readText_while t c s))) \<le> length (buf s)"
proof (induction t c s rule: readText_while.induct)
  case (1 t c s)
  show ?case
  proof (cases c)
    case None
    then show ?thesis by simp
  next
    case (Some ch)
    obtain p s1 where ps: "peek s = (p, s1)" by (cases "peek s")
    obtain c' s2 where g1: "get s1 = (c', s2)" by (cases "get s1")
    obtain c'' s3 where g: "get s = (c'', s3)" by (cases "get s")
    have b1: "buf s1 = buf s" using ps by (rule peek_buf)
    have l2: "length (buf s2) \<le> length (buf s)" using get_buf_le[of s1] g1 b1 by simp
    have l3: "length (buf s3) \<le> length (buf s)" using get_buf_le[of s] g by simp
    show ?thesis
    proof (cases "ch = CHR ''<''")
      case True
      show ?thesis
      proof (cases "p = Some (CHR ''?'')")
        case True
        with Some \<open>ch = CHR ''<''\<close> ps g1 l2 show ?thesis by simp
      next
        case False
        have "length (buf (snd (readText_while (t @ [ch]) c' s2))) \<le> length (buf s2)"
          using "1.IH"(1)[OF Some True ps[symmetric] False g1[symmetric]] .
        with Some True False ps g1 l2 show ?thesis by simp
      qed
    next
      case False
      have "length (buf (snd (readText_while (t @ [ch]) c'' s3))) \<le> length (buf s3)"
        using "1.IH"(2)[OF Some False g[symmetric]] .
      with Some False g l3 show ?thesis by simp
    qed
  qed
qed



lemma get_buf_le': "get s = (c, s1) \<Longrightarrow> length (buf s1) \<le> length (buf s)"
  using get_buf_le[of s] by simp

lemma readQuery_while_buf_le: "length (buf (snd (readQuery_while w s))) \<le> length (buf s)"
proof (induction w s rule: readQuery_while.induct)
  case (1 word s)
  obtain c s1 where g: "get s = (c, s1)" by (cases "get s")
  show ?case
  proof (cases c)
    case None
    with g show ?thesis by (simp add: get_None_buf)
  next
    case (Some ch)
    have l1: "Suc (length (buf s1)) = length (buf s)" using g Some get_Some_buf by simp
    obtain p s2 where ps: "(if ch = CHR ''?'' then peek s1 else (None, s1)) = (p, s2)"
      by (cases "if ch = CHR ''?'' then peek s1 else (None, s1)")
    have b2: "buf s2 = buf s1" using ps by (auto split: if_splits dest: peek_buf)
    show ?thesis
    proof (cases "ch = CHR ''?'' \<and> p = Some (CHR ''>'')")
      case True
      have "length (buf (putback ch s2)) \<le> Suc (length (buf s2))" by (rule putback_buf_le)
      with True g Some ps l1 b2 show ?thesis by simp
    next
      case False
      show ?thesis
      proof (cases "isSpace ch")
        case True
        with False g Some ps l1 b2 show ?thesis by auto
      next
        case nsp: False
        have "length (buf (snd (readQuery_while (word @ [ch]) s2))) \<le> length (buf s2)"
          using "1.IH"[OF g[symmetric] Some ps[symmetric] False nsp] .
        with False nsp g Some ps l1 b2 show ?thesis by auto
      qed
    qed
  qed
qed


lemma readTemplateCommand_while_buf_le:
  "length (buf (snd (readTemplateCommand_while w c s)))
     \<le> length (buf s) + (case c of None \<Rightarrow> 0 | Some ch \<Rightarrow> 1)"
proof (induction w c s rule: readTemplateCommand_while.induct)
  case (1 command c s)
  show ?case
  proof (cases c)
    case None
    then show ?thesis by simp
  next
    case (Some ch)
    obtain p s1 where ps: "(if ch = CHR ''?'' then peek s else (None, s)) = (p, s1)"
      by (cases "if ch = CHR ''?'' then peek s else (None, s)")
    have b1: "buf s1 = buf s" using ps by (auto split: if_splits dest: peek_buf)
    obtain c' s2 where g: "get s1 = (c', s2)" by (cases "get s1")
    show ?thesis
    proof (cases "isSpace ch")
      case True
      with Some show ?thesis by simp
    next
      case nsp: False
      show ?thesis
      proof (cases "ch = CHR ''?'' \<and> p = Some (CHR ''>'')")
        case True
        have "length (buf (putback ch s1)) \<le> Suc (length (buf s1))" by (rule putback_buf_le)
        with True nsp Some ps b1 show ?thesis by simp
      next
        case ncl: False
        show ?thesis
        proof (cases "ch = CHR ''='' \<and> length command = 0")
          case True
          with ncl nsp Some ps b1 show ?thesis by auto
        next
          case False
          have ih: "length (buf (snd (readTemplateCommand_while (command @ [ch]) c' s2)))
                  \<le> length (buf s2) + (case c' of None \<Rightarrow> 0 | Some ch \<Rightarrow> 1)"
            using "1.IH"[OF Some nsp ps[symmetric] ncl False g[symmetric]] .
          have "length (buf s2) + (case c' of None \<Rightarrow> 0 | Some ch \<Rightarrow> 1) \<le> length (buf s1)"
            using g by (cases c') (auto dest: get_Some_buf get_None_buf)
          with ih False ncl nsp Some ps b1 g show ?thesis by auto
        qed
      qed
    qed
  qed
qed

lemma readTemplateCommand_buf_le:
  "length (buf (snd (readTemplateCommand s))) \<le> length (buf s)"
proof -
  obtain c s1 where g: "get (readWhiteSpace s) = (c, s1)" by (cases "get (readWhiteSpace s)")
  have "length (buf s1) + (case c of None \<Rightarrow> 0 | Some ch \<Rightarrow> 1) \<le> length (buf (readWhiteSpace s))"
    using g by (cases c) (auto dest: get_Some_buf get_None_buf)
  also have "\<dots> \<le> length (buf s)" by (rule readWhiteSpace_buf_le)
  finally show ?thesis
    using readTemplateCommand_while_buf_le[of "[]" c s1] g
    by (simp add: readTemplateCommand_def)
qed

lemma readText_buf_le: "length (buf (snd (readText s))) \<le> length (buf s)"
proof -
  obtain c s1 where g: "get s = (c, s1)" by (cases "get s")
  have "length (buf (snd (readText_while [] c s1))) \<le> length (buf s1)"
    by (rule readText_while_buf_le)
  also have "\<dots> \<le> length (buf s)" using g by (rule get_buf_le')
  finally show ?thesis using g by (simp add: readText_def)
qed

lemma readWord_while_buf_le: "length (buf (snd (readWord_while w s))) \<le> length (buf s)"
proof (induction w s rule: readWord_while.induct)
  case (1 word s)
  obtain p s1 where ps: "peek s = (p, s1)" by (cases "peek s")
  have b1: "buf s1 = buf s" using ps by (rule peek_buf)
  show ?case
  proof (cases p)
    case None
    with ps b1 show ?thesis by simp
  next
    case (Some c)
    show ?thesis
    proof (cases "isSpace c")
      case True
      with Some ps b1 show ?thesis by simp
    next
      case False
      have "length (buf (snd (readWord_while (word @ [c]) (snd (get s1)))))
              \<le> length (buf (snd (get s1)))"
        using "1.IH"[OF ps[symmetric] Some False] .
      also have "\<dots> \<le> length (buf s1)" by (rule get_buf_le)
      finally show ?thesis using False Some ps b1 by simp
    qed
  qed
qed

lemma readString_while_buf_le: "length (buf (snd (readString_while w s))) \<le> length (buf s)"
proof (induction w s rule: readString_while.induct)
  case (1 str s)
  obtain c s1 where g: "get s = (c, s1)" by (cases "get s")
  have l1: "length (buf s1) \<le> length (buf s)" using g by (rule get_buf_le')
  show ?case
  proof (cases c)
    case None
    with g l1 show ?thesis by simp
  next
    case (Some ch)
    show ?thesis
    proof (cases "ch \<noteq> CHR 0x22")
      case True
      have "length (buf (snd (readString_while (str @ [ch]) s1))) \<le> length (buf s1)"
        using "1.IH"[OF g[symmetric] Some True] .
      with True Some g l1 show ?thesis by simp
    next
      case False
      with Some g l1 show ?thesis by simp
    qed
  qed
qed

lemma readString_buf_le: "length (buf (snd (readString s))) \<le> length (buf s)"
proof -
  obtain c s1 where g: "get s = (c, s1)" by (cases "get s")
  have l1: "length (buf s1) \<le> length (buf s)" using g by (rule get_buf_le')
  have "length (buf (snd (readString_while [] s1))) \<le> length (buf s1)"
    by (rule readString_while_buf_le)
  with g l1 show ?thesis by (simp add: readString_def)
qed

lemma readQuery_buf_le: "readQuery s = (q, s1) \<Longrightarrow> length (buf s1) \<le> length (buf s)"
  using readQuery_while_buf_le[of "[]" s] by (simp add: readQuery_def)

lemma readWord_buf_le: "readWord s = (q, s1) \<Longrightarrow> length (buf s1) \<le> length (buf s)"
  using readWord_while_buf_le[of "[]" s] by (simp add: readWord_def)


text \<open>The equations of the scanner loops are unfolded by hand from here on.\<close>

declare readWhiteSpace.simps [simp del] readText_while.simps [simp del]
  readTemplateCommand_while.simps [simp del] readWord_while.simps [simp del]
  readQuery_while.simps [simp del] readString_while.simps [simp del]

section \<open>Pointers into the tree under construction\<close>

text \<open>The vector \<open>_parts\<close> of a node whose class derives from \<open>MultiPart\<close>.\<close>

fun parts_of :: "part \<Rightarrow> part list" where
  "parts_of (MultiPart ps) = ps"
| "parts_of (LogicPart ps qs) = ps"
| "parts_of (LoopPart name query ps) = ps"
| "parts_of p = []"

fun set_parts :: "part list \<Rightarrow> part \<Rightarrow> part" where
  "set_parts ps' (MultiPart ps) = MultiPart ps'"
| "set_parts ps' (LogicPart ps qs) = LogicPart ps' qs"
| "set_parts ps' (LoopPart name query ps) = LoopPart name query ps'"
| "set_parts ps' p = p"

text \<open>Dereferencing a pointer, and writing through it.\<close>

fun node_at :: "part \<Rightarrow> part_ptr \<Rightarrow> part option" where
  "node_at p [] = Some p"
| "node_at p (i # ptr) =
     (if i < length (parts_of p) then node_at (parts_of p ! i) ptr else None)"

fun update_at :: "(part \<Rightarrow> part) \<Rightarrow> part \<Rightarrow> part_ptr \<Rightarrow> part" where
  "update_at f p [] = f p"
| "update_at f p (i # ptr) =
     (if i < length (parts_of p)
      then set_parts ((parts_of p)[i := update_at f (parts_of p ! i) ptr]) p
      else p)"

text \<open>
  The virtual \<open>addPart(Part*)\<close>: \<open>MultiPart::addPart\<close>, overridden by \<open>LogicPart\<close>,
  which pairs the new part with a \<open>LogicElseQuery\<close>.
\<close>

fun addPart :: "part \<Rightarrow> part \<Rightarrow> part" where
  "addPart new (LogicPart ps qs) = LogicPart (ps @ [new]) (qs @ [LogicElseQuery])"
| "addPart new (MultiPart ps) = MultiPart (ps @ [new])"
| "addPart new (LoopPart name query ps) = LoopPart name query (ps @ [new])"
| "addPart new p = p"

text \<open>\<open>LogicPart::addPart(LogicQuery*, Part*)\<close>\<close>

fun addPart_query :: "logic_query \<Rightarrow> part \<Rightarrow> part \<Rightarrow> part" where
  "addPart_query q new (LogicPart ps qs) = LogicPart (ps @ [new]) (qs @ [q])"
| "addPart_query q new p = p"

text \<open>\<open>dynamic_cast<LogicPart*>\<close> and \<open>dynamic_cast<LoopPart*>\<close> succeed on these nodes.\<close>

fun is_LogicPart :: "part option \<Rightarrow> bool" where
  "is_LogicPart (Some (LogicPart ps qs)) = True"
| "is_LogicPart p = False"

fun is_LoopPart :: "part option \<Rightarrow> bool" where
  "is_LoopPart (Some (LoopPart name query ps)) = True"
| "is_LoopPart p = False"

section \<open>The parser\<close>

text \<open>
  The members of \<open>Template\<close> while \<open>parse(std::istream&)\<close> runs. \<open>root\<close> holds every tree
  the template has allocated as the children of one node: the trees of earlier parses
  first, the tree \<open>_parts\<close> points to last, so that a pointer is a path from \<open>root\<close>.
  \<open>current\<close> is the pointer \<open>_currentPart\<close>, non-null like \<open>_parts\<close> from the first two
  assignments of \<open>parse\<close> on; the head of \<open>stack\<close> is \<open>_partStack.top()\<close>.
\<close>

record parser =
  root :: part
  current :: part_ptr
  stack :: "part_ptr list"
  tpath :: string

text \<open>The pointer a part gets when it is added next to the node at \<open>ptr\<close>.\<close>

definition new_child :: "part \<Rightarrow> part_ptr \<Rightarrow> part_ptr" where
  "new_child r ptr =
     ptr @ [case node_at r ptr of None \<Rightarrow> 0 | Some n \<Rightarrow> length (parts_of n)]"

text \<open>\<open>_currentPart->addPart(part)\<close>\<close>

definition current_addPart :: "part \<Rightarrow> parser \<Rightarrow> parser" where
  "current_addPart new st = st\<lparr>root := update_at (addPart new) (root st) (current st)\<rparr>"

text \<open>The constructor of \<open>IncludePart\<close>.\<close>

definition new_IncludePart :: "env \<Rightarrow> string \<Rightarrow> string \<Rightarrow> part" where
  "new_IncludePart e parentPath path =
     (if isRelative e path
      then (let templatePath = joinPath e parentPath path
            in if fileContents e templatePath \<noteq> None
               then IncludePart templatePath
               else IncludePart path)
      else IncludePart path)"

text \<open>
  The chain of comparisons on \<open>command\<close> in the loop of \<open>Template::parse\<close>: one directive
  is read up to its closer and the tree is extended; \<open>Inl\<close> is the exception thrown.
\<close>

definition directive :: "env \<Rightarrow> string \<Rightarrow> parser \<Rightarrow> istream \<Rightarrow> exn + parser \<times> istream" where
  "directive e command st s =
     (if command = ''echo'' then
        (case readQuery s of
           (query, s1) \<Rightarrow>
             if query = [] then Inl (JSONTemplateException ''Missing query in <? echo ?>'')
             else Inr (current_addPart (EchoPart query) st, s1))
      else if command = ''for'' then
        (case readWord s of
           (loopVariable, s1) \<Rightarrow>
             if loopVariable = []
             then Inl (JSONTemplateException ''Missing variable in <? for ?> command'')
             else (case readQuery (readWhiteSpace s1) of
                     (query, s2) \<Rightarrow>
                       if query = []
                       then Inl (JSONTemplateException ''Missing query in <? for ?> command'')
                       else (let part = new_child (root st) (current st)
                             in Inr (st\<lparr>root := update_at (addPart (LoopPart loopVariable query []))
                                                  (root st) (current st),
                                        current := part,
                                        stack := part # current st # stack st\<rparr>, s2))))
      else if command = ''else'' then
        (case stack st of
           [] \<Rightarrow> Inl (JSONTemplateException ''Unexpected <? else ?> found'')
         | lp # below \<Rightarrow>
             if \<not> is_LogicPart (node_at (root st) lp)
             then Inl (JSONTemplateException
                         ''Missing <? if ?> or <? ifexist ?> for <? else ?>'')
             else Inr (st\<lparr>root := update_at (addPart (MultiPart [])) (root st) lp,
                          current := new_child (root st) lp\<rparr>, s))
      else if command = ''elsif'' \<or> command = ''elif'' then
        (case readQuery s of
           (query, s1) \<Rightarrow>
             if query = []
             then Inl (JSONTemplateException (''Missing query in <? '' @ command @ '' ?>''))
             else (case stack st of
                     [] \<Rightarrow> Inl (JSONTemplateException ''Unexpected <? elsif / elif ?> found'')
                   | lp # below \<Rightarrow>
                       if \<not> is_LogicPart (node_at (root st) lp)
                       then Inl (JSONTemplateException
                                   ''Missing <? if ?> or <? ifexist ?> for <? elsif / elif ?>'')
                       else Inr (st\<lparr>root := update_at (addPart_query (LogicQuery query)
                                                              (MultiPart []))
                                                 (root st) lp,
                                    current := new_child (root st) lp\<rparr>, s1)))
      else if command = ''endfor'' then
        (if length (stack st) < 2
         then Inl (JSONTemplateException ''Unexpected <? endfor ?> found'')
         else if \<not> is_LoopPart (node_at (root st) (hd (stack st)))
         then Inl (JSONTemplateException ''Missing <? for ?> command'')
         else Inr (st\<lparr>current := hd (tl (stack st)), stack := tl (tl (stack st))\<rparr>, s))
      else if command = ''endif'' then
        (if length (stack st) < 2
         then Inl (JSONTemplateException ''Unexpected <? endif ?> found'')
         else if \<not> is_LogicPart (node_at (root st) (hd (stack st)))
         then Inl (JSONTemplateException
                     ''Missing <? if ?> or <? ifexist ?> for <? endif ?>'')
         else Inr (st\<lparr>current := hd (tl (stack st)), stack := tl (tl (stack st))\<rparr>, s))
      else if command = ''if'' \<or> command = ''ifexist'' then
        (case readQuery s of
           (query, s1) \<Rightarrow>
             if query = []
             then Inl (JSONTemplateException (''Missing query in <? '' @ command @ '' ?>''))
             else (let lp = new_child (root st) (current st);
                       r1 = update_at (addPart (LogicPart [] [])) (root st) (current st);
                       body = new_child r1 lp;
                       q = (if command = ''ifexist'' then LogicExistQuery query
                            else LogicQuery query)
                   in Inr (st\<lparr>root := update_at (addPart_query q (MultiPart [])) r1 lp,
                              current := body,
                              stack := lp # current st # stack st\<rparr>, s1)))
      else if command = ''include'' then
        (case readString (readWhiteSpace s) of
           (filename, s1) \<Rightarrow>
             if filename = []
             then Inl (JSONTemplateException ''Missing filename in <? include ?>'')
             else (let resolvePath = makeParent e (tpath st)
                   in Inr (current_addPart (new_IncludePart e resolvePath filename) st, s1)))
      else Inl (JSONTemplateException (''Unknown command '' @ command)))"

text \<open>
  The end of the loop body: the closer \<open>?>\<close> is required, and behind the closer of a
  command other than \<open>echo\<close> one carriage return and one line feed are skipped.
\<close>

definition closer :: "string \<Rightarrow> istream \<Rightarrow> exn + istream" where
  "closer command s =
     (case get (readWhiteSpace s) of
        (c, s1) \<Rightarrow>
          (case (if c = Some (CHR ''?'') then peek s1 else (None, s1)) of
             (p, s2) \<Rightarrow>
               if c = Some (CHR ''?'') \<and> p = Some (CHR ''>'')
               then (let s3 = snd (get s2)
                     in if command \<noteq> ''echo''
                        then (case peek s3 of
                                (p1, s4) \<Rightarrow>
                                  (case peek (if p1 = Some (CHR 0x0D) then snd (get s4) else s4) of
                                     (p2, s5) \<Rightarrow>
                                       Inr (if p2 = Some (CHR 0x0A) then snd (get s5) else s5)))
                        else Inr s3)
               else Inl (JSONTemplateException ''Missing ?>'')))"

text \<open>
  One turn of the \<open>while (in.good())\<close> loop. \<open>Inr (st, None)\<close> is a \<open>break\<close>,
  \<open>Inr (st, Some s)\<close> the end of the loop body.
\<close>

definition parse_step :: "env \<Rightarrow> parser \<Rightarrow> istream \<Rightarrow> exn + parser \<times> istream option" where
  "parse_step e st s =
     (case readText s of
        (text, s1) \<Rightarrow>
          (let st1 = (if length text > 0 then current_addPart (StringPart text) st else st)
           in case readTemplateCommand s1 of
                (command, s2) \<Rightarrow>
                  if command = [] then Inr (st1, None)
                  else (case directive e command st1 (readWhiteSpace s2) of
                          Inl ex \<Rightarrow> Inl ex
                        | Inr (st2, s3) \<Rightarrow>
                            (case closer command s3 of
                               Inl ex \<Rightarrow> Inl ex
                             | Inr s4 \<Rightarrow> Inr (st2, Some s4)))))"

subsection \<open>Every completed turn of the loop consumes input\<close>

lemma directive_buf_le:
  assumes "directive e command st s = Inr (st', s')"
  shows "length (buf s') \<le> length (buf s)"
proof -
  have ws: "\<And>x. length (buf (readWhiteSpace x)) \<le> length (buf x)"
    by (rule readWhiteSpace_buf_le)
  have q: "\<And>x q y. readQuery x = (q, y) \<Longrightarrow> length (buf y) \<le> length (buf x)"
    by (rule readQuery_buf_le)
  have w: "\<And>x q y. readWord x = (q, y) \<Longrightarrow> length (buf y) \<le> length (buf x)"
    by (rule readWord_buf_le)
  have qw: "\<And>x q y. readQuery (readWhiteSpace x) = (q, y) \<Longrightarrow> length (buf y) \<le> length (buf x)"
    using q ws le_trans by blast
  have sw: "\<And>x q y. readString (readWhiteSpace x) = (q, y) \<Longrightarrow> length (buf y) \<le> length (buf x)"
    using readString_buf_le ws le_trans by (metis snd_conv)
  consider "command = ''echo''" | "command = ''for''" | "command = ''else''"
    | "command = ''elsif'' \<or> command = ''elif''" | "command = ''endfor''" | "command = ''endif''"
    | "command = ''if'' \<or> command = ''ifexist''" | "command = ''include''"
    | "command \<notin> {''echo'', ''for'', ''else'', ''elsif'', ''elif'', ''endfor'', ''endif'', ''if'',
         ''ifexist'', ''include''}"
    by auto
  then show ?thesis
  proof cases
    case 1
    with assms show ?thesis
      by (auto simp: directive_def split: prod.splits if_splits dest: q)
  next
    case 2
    with assms show ?thesis
      by (auto simp: directive_def Let_def split: prod.splits if_splits dest!: qw w)
  next
    case 3
    with assms show ?thesis
      by (auto simp: directive_def split: list.splits if_splits)
  next
    case 4
    with assms show ?thesis
      by (auto simp: directive_def split: prod.splits list.splits if_splits dest: q)
  next
    case 5
    with assms show ?thesis
      by (auto simp: directive_def split: if_splits)
  next
    case 6
    with assms show ?thesis
      by (auto simp: directive_def split: if_splits)
  next
    case 7
    with assms show ?thesis
      by (auto simp: directive_def Let_def split: prod.splits if_splits dest: q)
  next
    case 8
    with assms show ?thesis
      by (auto simp: directive_def Let_def split: prod.splits if_splits dest: sw)
  next
    case 9
    with assms show ?thesis
      by (simp add: directive_def)
  qed
qed

lemma closer_buf_less:
  assumes "closer command s = Inr s'"
  shows "length (buf s') < length (buf s)"
proof -
  obtain c s1 where g: "get (readWhiteSpace s) = (c, s1)" by (cases "get (readWhiteSpace s)")
  obtain p s2 where ps: "(if c = Some (CHR ''?'') then peek s1 else (None, s1)) = (p, s2)"
    by (cases "if c = Some (CHR ''?'') then peek s1 else (None, s1)")
  have ok: "c = Some (CHR ''?'')" "p = Some (CHR ''>'')"
    using assms g ps by (auto simp: closer_def split: if_splits)
  have "Suc (length (buf s1)) = length (buf (readWhiteSpace s))"
    using g ok get_Some_buf by simp
  then have l1: "length (buf s1) < length (buf s)"
    using readWhiteSpace_buf_le[of s] by simp
  have b2: "buf s2 = buf s1" using ps ok by (auto dest: peek_buf)
  define s3 where "s3 = snd (get s2)"
  have l3: "length (buf s3) \<le> length (buf s2)" unfolding s3_def by (rule get_buf_le)
  show ?thesis
  proof (cases "command \<noteq> ''echo''")
    case False
    then have "s' = s3" using assms g ps ok by (simp add: closer_def s3_def)
    with l1 b2 l3 show ?thesis by simp
  next
    case True
    obtain p1 s4 where p1: "peek s3 = (p1, s4)" by (cases "peek s3")
    define s4' where "s4' = (if p1 = Some (CHR 0x0D) then snd (get s4) else s4)"
    obtain p2 s5 where p2: "peek s4' = (p2, s5)" by (cases "peek s4'")
    have e: "s' = (if p2 = Some (CHR 0x0A) then snd (get s5) else s5)"
      using assms g ps ok True p1 p2
      by (simp add: closer_def s3_def s4'_def Let_def del: One_nat_def)
    have "length (buf s4') \<le> length (buf s3)"
      using p1 get_buf_le[of s4] by (auto simp: s4'_def dest: peek_buf)
    moreover have "length (buf s') \<le> length (buf s4')"
      using p2 get_buf_le[of s5] e by (auto dest: peek_buf)
    ultimately show ?thesis using l1 b2 l3 by simp
  qed
qed

lemma parse_step_buf_less:
  assumes "parse_step e st s = Inr (st', Some s')"
  shows "length (buf s') < length (buf s)"
proof -
  obtain t s1 where rt: "readText s = (t, s1)" by (cases "readText s")
  obtain command s2 where rc: "readTemplateCommand s1 = (command, s2)"
    by (cases "readTemplateCommand s1")
  define st1 where "st1 = (if length t > 0 then current_addPart (StringPart t) st else st)"
  from assms rt rc obtain st2 s3 where
    d: "directive e command st1 (readWhiteSpace s2) = Inr (st2, s3)" and
    c: "closer command s3 = Inr s'"
    by (auto simp: parse_step_def Let_def st1_def split: if_splits sum.splits)
  have "length (buf s') < length (buf s3)" using c by (rule closer_buf_less)
  also have "\<dots> \<le> length (buf (readWhiteSpace s2))" using d by (rule directive_buf_le)
  also have "\<dots> \<le> length (buf s2)" by (rule readWhiteSpace_buf_le)
  also have "\<dots> \<le> length (buf s1)" using readTemplateCommand_buf_le[of s1] rc by simp
  also have "\<dots> \<le> length (buf s)" using readText_buf_le[of s] rt by simp
  finally show ?thesis .
qed

text \<open>The loop of \<open>Template::parse(std::istream&)\<close>.\<close>

function parse_loop :: "env \<Rightarrow> parser \<Rightarrow> istream \<Rightarrow> exn + parser" where
  "parse_loop e st s =
     (if good s
      then (case parse_step e st s of
              Inl ex \<Rightarrow> Inl ex
            | Inr (st', None) \<Rightarrow> Inr st'
            | Inr (st', Some s') \<Rightarrow> parse_loop e st' s')
      else Inr st)"
  by pat_completeness auto
termination
  by (relation "measure (\<lambda>(e, st, s). length (buf s))") (auto dest: parse_step_buf_less)


declare parse_loop.simps [simp del]

section \<open>Templates\<close>

text \<open>The two constructors: \<open>_parts\<close> and \<open>_currentPart\<close> start as null pointers.\<close>

definition Template_path :: "string \<Rightarrow> template" where
  "Template_path p =
     \<lparr>parts = None, currentPart = None, partStack = [], templatePath = p, leaked = []\<rparr>"

definition Template_default :: template where
  "Template_default =
     \<lparr>parts = None, currentPart = None, partStack = [], templatePath = [], leaked = []\<rparr>"

text \<open>
  \<open>Template::parse(std::istream&)\<close>. The tree \<open>_parts\<close> pointed to joins the trees of
  earlier parses, \<open>_parts\<close> and \<open>_currentPart\<close> point to a new empty \<open>MultiPart\<close>, and
  \<open>_partStack\<close> is what the last parse left: its pointers keep pointing into the earlier
  trees, and what the loop adds through them lands there. An exception leaves the function
  through \<open>Inl\<close>; the members it leaves behind are not kept.
\<close>

definition allocated :: "template \<Rightarrow> part list" where
  "allocated t = leaked t @ (case parts t of None \<Rightarrow> [] | Some r \<Rightarrow> [r])"

definition Template_parse_stream :: "env \<Rightarrow> template \<Rightarrow> istream \<Rightarrow> exn + template" where
  "Template_parse_stream e t s =
     (let old = allocated t; k = length old
      in case parse_loop e \<lparr>root = MultiPart (old @ [MultiPart []]), current = [k],
                              stack = partStack t, tpath = templatePath t\<rparr> s of
           Inl ex \<Rightarrow> Inl ex
         | Inr st \<Rightarrow> Inr (t\<lparr>parts := node_at (root st) [k],
                              currentPart := Some (current st),
                              partStack := stack st,
                              leaked := take k (parts_of (root st))\<rparr>))"

text \<open>\<open>Template::parse()\<close>: nothing happens when the file does not exist.\<close>

definition Template_parse :: "env \<Rightarrow> template \<Rightarrow> exn + template" where
  "Template_parse e t =
     (case fileContents e (templatePath t) of
        None \<Rightarrow> Inr t
      | Some src \<Rightarrow> Template_parse_stream e t (istream_of src))"

section \<open>Rendering\<close>

text \<open>
  The template an \<open>IncludePart\<close> renders: parsed on the spot when there is no cache,
  otherwise the one the cache hands out.
\<close>

definition include_template :: "env \<Rightarrow> string \<Rightarrow> fault + template" where
  "include_template e path =
     (case cache e of
        None \<Rightarrow>
          (case Template_parse e (Template_path path) of
             Inl ex \<Rightarrow> Inl (ParseFailed ex)
           | Inr tpl \<Rightarrow> Inr tpl)
      | Some getTemplate \<Rightarrow>
          (case getTemplate path of
             None \<Rightarrow> Inl NullTemplate
           | Some tpl \<Rightarrow> Inr tpl))"

lemma size_nth_less: "i < length ps \<Longrightarrow> size (ps ! i) < size_list size ps"
proof (induction ps arbitrary: i)
  case Nil
  then show ?case by simp
next
  case (Cons a ps)
  show ?case
  proof (cases i)
    case 0
    then show ?thesis by simp
  next
    case (Suc j)
    with Cons.prems have "j < length ps" by simp
    from Cons.IH[OF this] Suc show ?thesis by simp
  qed
qed

text \<open>
  The \<open>render\<close> member of every part class. The data context is returned next to the
  output, since \<open>LoopPart::render\<close> writes to the object \<open>data\<close> points to. The first
  number bounds the nesting of includes: each \<open>IncludePart::render\<close> calls
  \<open>Template::render\<close> one level deeper.
  \<open>render_parts\<close> is \<open>MultiPart::render\<close>, \<open>render_logic\<close> the loop of
  \<open>LogicPart::render\<close>, \<open>render_loop\<close> the loop of \<open>LoopPart::render\<close>.
\<close>

function render :: "env \<Rightarrow> nat \<Rightarrow> part \<Rightarrow> var \<Rightarrow> string \<Rightarrow> fault + var \<times> string"
  and render_parts :: "env \<Rightarrow> nat \<Rightarrow> part list \<Rightarrow> var \<Rightarrow> string \<Rightarrow> fault + var \<times> string"
  and render_logic ::
    "env \<Rightarrow> nat \<Rightarrow> part list \<Rightarrow> logic_query list \<Rightarrow> nat \<Rightarrow> var \<Rightarrow> string \<Rightarrow> fault + var \<times> string"
  and render_loop ::
    "env \<Rightarrow> nat \<Rightarrow> string \<Rightarrow> part list \<Rightarrow> var list \<Rightarrow> var \<Rightarrow> string \<Rightarrow> fault + var \<times> string"
where
  "render e depth (StringPart content) data out = Inr (data, out @ content)"
| "render e depth (MultiPart ps) data out = render_parts e depth ps data out"
| "render e depth (EchoPart query) data out =
     (let v = find_path e data query
      in if \<not> isEmpty v then Inr (data, out @ convert_string e v) else Inr (data, out))"
| "render e depth (LogicPart ps qs) data out = render_logic e depth ps qs 0 data out"
| "render e depth (LoopPart name query ps) data out =
     (if is_object data
      then (case findArray e data query of
              None \<Rightarrow> Inr (data, out)
            | Some array \<Rightarrow>
                (case render_loop e depth name ps array data out of
                   Inl f \<Rightarrow> Inl f
                 | Inr (data', out') \<Rightarrow> Inr (object_remove name data', out')))
      else Inr (data, out))"
| "render e 0 (IncludePart path) data out = Inl StackExhausted"
| "render e (Suc depth) (IncludePart path) data out =
     (case include_template e path of
        Inl f \<Rightarrow> Inl f
      | Inr tpl \<Rightarrow>
          (case parts tpl of
             None \<Rightarrow> Inl NullDereference
           | Some r \<Rightarrow> render e depth r data out))"
| "render_parts e depth [] data out = Inr (data, out)"
| "render_parts e depth (p # ps) data out =
     (case render e depth p data out of
        Inl f \<Rightarrow> Inl f
      | Inr (data', out') \<Rightarrow> render_parts e depth ps data' out')"
| "render_logic e depth ps [] count data out = Inr (data, out)"
| "render_logic e depth ps (q # qs) count data out =
     (if apply_query e q data \<and> length ps > count
      then render e depth (ps ! count) data out
      else render_logic e depth ps qs (count + 1) data out)"
| "render_loop e depth name ps [] data out = Inr (data, out)"
| "render_loop e depth name ps (v # vs) data out =
     (case render_parts e depth ps (object_set name v data) out of
        Inl f \<Rightarrow> Inl f
      | Inr (data', out') \<Rightarrow> render_loop e depth name ps vs data' out')"
  by pat_completeness auto

termination
  apply (relation "inv_image (less_than <*lex*> less_than <*lex*> less_than)
     (\<lambda>x. case x of
        Inl (Inl (e, depth, p, data, out)) \<Rightarrow> (depth, size p, 0)
      | Inl (Inr (e, depth, ps, data, out)) \<Rightarrow> (depth, size_list size ps, 0)
      | Inr (Inl (e, depth, ps, qs, count, data, out)) \<Rightarrow> (depth, size_list size ps, Suc (length qs))
      | Inr (Inr (e, depth, name, ps, vs, data, out)) \<Rightarrow> (depth, size_list size ps, Suc (length vs)))")
  apply (auto simp: size_nth_less)
  done


text \<open>\<open>Template::render\<close> dereferences \<open>_parts\<close> without a test.\<close>

definition Template_render ::
  "env \<Rightarrow> nat \<Rightarrow> template \<Rightarrow> var \<Rightarrow> string \<Rightarrow> fault + var \<times> string" where
  "Template_render e depth t data out =
     (case parts t of
        None \<Rightarrow> Inl NullDereference
      | Some r \<Rightarrow> render e depth r data out)"

section \<open>A value model to run examples with\<close>

text \<open>
  Modelled from the spec: \<open>Query::find\<close>, \<open>Query::findArray\<close> and the conversions of
  \<open>Var\<close> are missing. The spec asks for a path-style lookup, an array-or-null lookup, a
  conversion to text and a conversion to bool under which numeric zero, an empty array or
  object and boolean false are false and everything else is true. This instance looks a
  dotted path up field by field and writes integers in decimal; it has no files and no
  cache.
\<close>

fun split_dots :: "string \<Rightarrow> string \<Rightarrow> string list" where
  "split_dots acc [] = [acc]"
| "split_dots acc (c # cs) =
     (if c = CHR ''.'' then acc # split_dots [] cs else split_dots (acc @ [c]) cs)"

fun lookup_path :: "var \<Rightarrow> string list \<Rightarrow> var" where
  "lookup_path v [] = v"
| "lookup_path v (k # ks) =
     (case v of
        VObject fs \<Rightarrow> (case map_of fs k of None \<Rightarrow> VEmpty | Some v' \<Rightarrow> lookup_path v' ks)
      | _ \<Rightarrow> VEmpty)"

function decimal :: "nat \<Rightarrow> string" where
  "decimal n =
     (if n < 10 then [char_of (48 + n)] else decimal (n div 10) @ [char_of (48 + n mod 10)])"
  by pat_completeness auto
termination
  by (relation "measure id") auto

declare decimal.simps [simp del]

definition example_find :: "var \<Rightarrow> string \<Rightarrow> var" where
  "example_find data path = lookup_path data (split_dots [] path)"

definition example_findArray :: "var \<Rightarrow> string \<Rightarrow> var list option" where
  "example_findArray data path =
     (case example_find data path of VArray xs \<Rightarrow> Some xs | _ \<Rightarrow> None)"

fun example_toString :: "var \<Rightarrow> string" where
  "example_toString VEmpty = []"
| "example_toString (VBool b) = (if b then ''true'' else ''false'')"
| "example_toString (VInt i) = (if i < 0 then CHR ''-'' # decimal (nat (- i)) else decimal (nat i))"
| "example_toString (VString s) = s"
| "example_toString (VArray xs) = ''[...]''"
| "example_toString (VObject fs) = ''{...}''"

fun example_toBool :: "var \<Rightarrow> bool" where
  "example_toBool VEmpty = False"
| "example_toBool (VBool b) = b"
| "example_toBool (VInt i) = (i \<noteq> 0)"
| "example_toBool (VString s) = (s \<noteq> [])"
| "example_toBool (VArray xs) = (xs \<noteq> [])"
| "example_toBool (VObject fs) = (fs \<noteq> [])"

definition example_env :: env where
  "example_env =
     \<lparr>find_path = example_find, findArray = example_findArray,
      toString = example_toString, toBool = example_toBool,
      fileContents = (\<lambda>p. None), cache = None,
      isRelative = (\<lambda>p. True), joinPath = (\<lambda>parent p. parent @ p),
      makeParent = (\<lambda>p. [])\<rparr>"

text \<open>Compiling a template held in memory, as \<open>Template().parse(in)\<close> does.\<close>

definition compile :: "env \<Rightarrow> string \<Rightarrow> exn + template" where
  "compile e src = Template_parse_stream e Template_default (istream_of src)"

section \<open>Guards and conditionals\<close>

text \<open>
  C1. Guard evaluation contract. For every data context and query path: a value-truthy
  guard is false when the lookup is empty; when the value found is a string it is true
  exactly when the string is non-empty, whatever its content (so the strings \<open>0\<close> and
  \<open>false\<close> are true); for any other value it is the boolean conversion of the value
  model. An exist guard is true exactly when the lookup is non-empty. The guard of an
  else branch is true for every data context.
\<close>

theorem guard_evaluation_contract:
  "apply_query e (LogicQuery q) data =
     (case find_path e data q of
        VEmpty \<Rightarrow> False
      | VString s \<Rightarrow> s \<noteq> []
      | v \<Rightarrow> toBool e v)
   \<and> apply_query (e\<lparr>find_path := \<lambda>d p. VString ''0''\<rparr>) (LogicQuery q) data = True
   \<and> apply_query (e\<lparr>find_path := \<lambda>d p. VString ''false''\<rparr>) (LogicQuery q) data = True
   \<and> apply_query e (LogicExistQuery q) data = (find_path e data q \<noteq> VEmpty)
   \<and> apply_query e LogicElseQuery data = True"
  by (cases "find_path e data q")
     (simp_all add: isEmpty_def isString_def convert_string_def convert_bool_def)

text \<open>
  The loop of \<open>LogicPart::render\<close> from position \<open>count\<close> on: the guards are paired
  with the bodies at the same position, and the body of the first pair whose guard holds
  is rendered.
\<close>

lemma render_logic_zip:
  "render_logic e depth ps qs count data out =
     (case List.find (\<lambda>gb. apply_query e (fst gb) data) (zip qs (drop count ps)) of
        None \<Rightarrow> Inr (data, out)
      | Some gb \<Rightarrow> render e depth (snd gb) data out)"
proof (induction qs arbitrary: count)
  case Nil
  show ?case by simp
next
  case (Cons q qs)
  show ?case
  proof (cases "count < length ps")
    case False
    then have "drop count ps = []" "drop (Suc count) ps = []" by simp_all
    with Cons.IH[of "Suc count"] False show ?thesis by simp
  next
    case True
    then have d: "drop count ps = ps ! count # drop (Suc count) ps"
      by (simp add: Cons_nth_drop_Suc)
    show ?thesis
    proof (cases "apply_query e q data")
      case True
      with \<open>count < length ps\<close> d show ?thesis by simp
    next
      case False
      with Cons.IH[of "Suc count"] d show ?thesis by simp
    qed
  qed
qed

lemma compile_if_elsif_else:
  "compile example_env ''<? if a ?>A<? elsif b ?>B<? else ?>C<? endif ?>'' =
     Inr \<lparr>parts = Some (MultiPart
              [LogicPart [MultiPart [StringPart ''A''], MultiPart [StringPart ''B''],
                          MultiPart [StringPart ''C'']]
                         [LogicQuery ''a'', LogicQuery ''b'', LogicElseQuery]]),
           currentPart = Some [0], partStack = [], templatePath = [], leaked = []\<rparr>"
  by code_simp

text \<open>
  C2. Conditional dispatch. For every conditional part and data context, rendering
  evaluates the guards in the order they were appended, renders exactly the body paired
  with the first guard that is true (the body at the same position) and leaves the output
  and the data as they are when no guard is true. The template
  \<open><? if a ?>A<? elsif b ?>B<? else ?>C<? endif ?>\<close> compiles, and rendered against
  \<open>{"a":"","b":"1"}\<close> it produces \<open>B\<close>.
\<close>

theorem conditional_dispatch:
  "render e depth (LogicPart ps qs) data out =
     (case List.find (\<lambda>gb. apply_query e (fst gb) data) (zip qs ps) of
        None \<Rightarrow> Inr (data, out)
      | Some gb \<Rightarrow> render e depth (snd gb) data out)
   \<and> (\<exists>t. compile example_env ''<? if a ?>A<? elsif b ?>B<? else ?>C<? endif ?>'' = Inr t
          \<and> Template_render example_env depth t
                (VObject [(''a'', VString ''''), (''b'', VString ''1'')]) [] =
              Inr (VObject [(''a'', VString ''''), (''b'', VString ''1'')], ''B''))"
proof
  show "render e depth (LogicPart ps qs) data out =
     (case List.find (\<lambda>gb. apply_query e (fst gb) data) (zip qs ps) of
        None \<Rightarrow> Inr (data, out)
      | Some gb \<Rightarrow> render e depth (snd gb) data out)"
    using render_logic_zip[of e depth ps qs 0 data out] by simp
next
  have a: "apply_query example_env (LogicQuery ''a'')
             (VObject [(''a'', VString ''''), (''b'', VString ''1'')]) = False"
    by (simp add: example_env_def example_find_def isEmpty_def isString_def convert_string_def)
  have b: "apply_query example_env (LogicQuery ''b'')
             (VObject [(''a'', VString ''''), (''b'', VString ''1'')]) = True"
    by (simp add: example_env_def example_find_def isEmpty_def isString_def convert_string_def)
  show "\<exists>t. compile example_env ''<? if a ?>A<? elsif b ?>B<? else ?>C<? endif ?>'' = Inr t
          \<and> Template_render example_env depth t
                (VObject [(''a'', VString ''''), (''b'', VString ''1'')]) [] =
              Inr (VObject [(''a'', VString ''''), (''b'', VString ''1'')], ''B'')"
    unfolding compile_if_elsif_else
    using a b by (simp add: Template_render_def)
qed


section \<open>Loops\<close>

text \<open>
  The loop of the spec, in its words: for each element in index order, set the
  loop-variable field on the context object to that element and render the body with the
  mutated context. A fault ends the iteration.
\<close>

definition each_element ::
  "env \<Rightarrow> nat \<Rightarrow> string \<Rightarrow> part list \<Rightarrow> var list \<Rightarrow> var \<Rightarrow> string \<Rightarrow> fault + var \<times> string" where
  "each_element e depth name body array data out =
     foldl (\<lambda>acc v. case acc of
                       Inl f \<Rightarrow> Inl f
                     | Inr (d, out') \<Rightarrow> render_parts e depth body (object_set name v d) out')
           (Inr (data, out)) array"

lemma foldl_fault:
  "foldl (\<lambda>acc v. case acc of Inl f \<Rightarrow> Inl f | Inr (d, out') \<Rightarrow> g v d out') (Inl f) vs = Inl f"
  by (induction vs) simp_all

lemma render_loop_each_element:
  "render_loop e depth name body array data out = each_element e depth name body array data out"
proof (induction array arbitrary: data out)
  case Nil
  show ?case by (simp add: each_element_def)
next
  case (Cons v vs)
  show ?case
  proof (cases "render_parts e depth body (object_set name v data) out")
    case (Inl f)
    then show ?thesis by (simp add: each_element_def foldl_fault)
  next
    case (Inr r)
    obtain d out' where r: "r = (d, out')" by (cases r)
    from Cons.IH[of d out'] Inr r show ?thesis by (simp add: each_element_def)
  qed
qed

lemma compile_for:
  "compile example_env ''<? for x items ?><?= x ?>,<? endfor ?>'' =
     Inr \<lparr>parts = Some (MultiPart [LoopPart ''x'' ''items'' [EchoPart ''x'', StringPart '','']]),
           currentPart = Some [0], partStack = [], templatePath = [], leaked = []\<rparr>"
  by code_simp

lemma render_for_example:
  "render example_env depth (MultiPart [LoopPart ''x'' ''items'' [EchoPart ''x'', StringPart '','']])
     (VObject [(''items'', VArray [VInt 1, VInt 2, VInt 3])]) [] =
   Inr (VObject [(''items'', VArray [VInt 1, VInt 2, VInt 3])], ''1,2,3,'')"
  by code_simp

text \<open>
  C3. Loop rendering semantics. When the data context is an object and the query of the
  loop resolves to an array, the body is rendered once per element in index order, the
  loop variable bound to the element in the context, and the field is removed after the
  last element. When the context is not an object, or the query does not resolve to an
  array, the loop renders nothing. The template \<open><? for x items ?><?= x ?>,<? endfor ?>\<close>
  rendered against \<open>{"items":[1,2,3]}\<close> produces \<open>1,2,3,\<close>, and the data object has no
  field \<open>x\<close> afterwards.
\<close>

theorem loop_rendering_semantics:
  "render e depth (LoopPart name query body) data out =
     (if is_object data
      then (case findArray e data query of
              None \<Rightarrow> Inr (data, out)
            | Some array \<Rightarrow>
                (case each_element e depth name body array data out of
                   Inl f \<Rightarrow> Inl f
                 | Inr (d, out') \<Rightarrow> Inr (object_remove name d, out')))
      else Inr (data, out))
   \<and> object_get (object_set name v (VObject fs)) name = Some v
   \<and> (\<exists>t data'.
         compile example_env ''<? for x items ?><?= x ?>,<? endfor ?>'' = Inr t
         \<and> Template_render example_env depth t
               (VObject [(''items'', VArray [VInt 1, VInt 2, VInt 3])]) [] =
             Inr (data', ''1,2,3,'')
         \<and> \<not> has_field data' ''x'')"
proof (intro conjI)
  show "render e depth (LoopPart name query body) data out =
     (if is_object data
      then (case findArray e data query of
              None \<Rightarrow> Inr (data, out)
            | Some array \<Rightarrow>
                (case each_element e depth name body array data out of
                   Inl f \<Rightarrow> Inl f
                 | Inr (d, out') \<Rightarrow> Inr (object_remove name d, out')))
      else Inr (data, out))"
    by (simp add: render_loop_each_element split: option.splits)
next
  show "object_get (object_set name v (VObject fs)) name = Some v"
    by (simp add: object_get_def object_set_def update_conv')
next
  show "\<exists>t data'.
         compile example_env ''<? for x items ?><?= x ?>,<? endfor ?>'' = Inr t
         \<and> Template_render example_env depth t
               (VObject [(''items'', VArray [VInt 1, VInt 2, VInt 3])]) [] =
             Inr (data', ''1,2,3,'')
         \<and> \<not> has_field data' ''x''"
    unfolding compile_for
    using render_for_example[of depth]
    by (simp add: Template_render_def has_field_def object_get_def)
qed


section \<open>The data context across a render\<close>

text \<open>
  The names of the loop variables a render of a part can meet: those of the part tree
  and, behind each \<open>IncludePart\<close>, those of the template that \<open>IncludePart::render\<close>
  loads in the environment \<open>e\<close>, as many includes deep as the render goes. A template no
  include of the tree leads to does not count.
\<close>

function loop_names :: "env \<Rightarrow> nat \<Rightarrow> part \<Rightarrow> string list"
  and loop_names_list :: "env \<Rightarrow> nat \<Rightarrow> part list \<Rightarrow> string list"
where
  "loop_names e depth (StringPart content) = []"
| "loop_names e depth (MultiPart ps) = loop_names_list e depth ps"
| "loop_names e depth (EchoPart query) = []"
| "loop_names e depth (LogicPart ps qs) = loop_names_list e depth ps"
| "loop_names e depth (LoopPart name query ps) = name # loop_names_list e depth ps"
| "loop_names e 0 (IncludePart path) = []"
| "loop_names e (Suc depth) (IncludePart path) =
     (case include_template e path of
        Inl f \<Rightarrow> []
      | Inr tpl \<Rightarrow>
          (case parts tpl of
             None \<Rightarrow> []
           | Some r \<Rightarrow> loop_names e depth r))"
| "loop_names_list e depth [] = []"
| "loop_names_list e depth (p # ps) = loop_names e depth p @ loop_names_list e depth ps"
  by pat_completeness auto

termination
  apply (relation "inv_image (less_than <*lex*> less_than)
     (\<lambda>x. case x of
        Inl (e, depth, p) \<Rightarrow> (depth, size p)
      | Inr (e, depth, ps) \<Rightarrow> (depth, size_list size ps))")
  apply auto
  done

definition template_loop_names :: "env \<Rightarrow> nat \<Rightarrow> template \<Rightarrow> string list" where
  "template_loop_names e depth t =
     (case parts t of None \<Rightarrow> [] | Some r \<Rightarrow> loop_names e depth r)"

text \<open>
  What a render can do to the data context: an object loses some of the fields whose names
  are loop variables; any other value stays as it is.
\<close>

definition drop_keys :: "string set \<Rightarrow> (string \<times> var) list \<Rightarrow> (string \<times> var) list" where
  "drop_keys K fs = filter (\<lambda>kv. fst kv \<notin> K) fs"

definition ctx_shrunk :: "string set \<Rightarrow> var \<Rightarrow> var \<Rightarrow> bool" where
  "ctx_shrunk N data d' =
     (case data of
        VObject fs \<Rightarrow> (\<exists>K. K \<subseteq> N \<and> d' = VObject (drop_keys K fs))
      | _ \<Rightarrow> d' = data)"

lemma drop_keys_empty: "drop_keys {} fs = fs"
  by (simp add: drop_keys_def)

lemma drop_keys_twice: "drop_keys K (drop_keys K' fs) = drop_keys (K' \<union> K) fs"
  by (auto simp: drop_keys_def intro: filter_cong)

lemma delete_drop_keys: "AList.delete k fs = drop_keys {k} fs"
  by (induction fs) (auto simp: drop_keys_def)

lemma drop_keys_update: "drop_keys {k} (AList.update k v fs) = drop_keys {k} fs"
  using delete_update_same[of k v fs] by (simp add: delete_drop_keys)

lemma drop_keys_disjoint: "K \<inter> fst ` set fs = {} \<Longrightarrow> drop_keys K fs = fs"
  unfolding drop_keys_def by (rule filter_True) auto

lemma map_of_drop_keys: "map_of (drop_keys K fs) k = (if k \<in> K then None else map_of fs k)"
  by (induction fs) (auto simp: drop_keys_def)


lemma ctx_shrunk_object:
  "ctx_shrunk N (VObject fs) d' = (\<exists>K. K \<subseteq> N \<and> d' = VObject (drop_keys K fs))"
  by (simp add: ctx_shrunk_def)

lemma ctx_shrunk_other: "\<not> is_object data \<Longrightarrow> ctx_shrunk N data d' = (d' = data)"
  by (cases data) (simp_all add: ctx_shrunk_def is_object_def)

lemma is_objectE: "is_object d \<Longrightarrow> \<exists>fs. d = VObject fs"
  by (cases d) (simp_all add: is_object_def)

lemma ctx_shrunk_refl: "ctx_shrunk N data data"
proof (cases "is_object data")
  case True
  then obtain fs where d: "data = VObject fs" using is_objectE by blast
  have "{} \<subseteq> N \<and> VObject fs = VObject (drop_keys {} fs)" by (simp add: drop_keys_empty)
  then show ?thesis unfolding d ctx_shrunk_object by blast
next
  case False
  then show ?thesis by (simp add: ctx_shrunk_other)
qed

lemma ctx_shrunk_trans:
  assumes "ctx_shrunk N d0 d1" "ctx_shrunk N d1 d2"
  shows "ctx_shrunk N d0 d2"
proof (cases "is_object d0")
  case True
  then obtain fs where d: "d0 = VObject fs" using is_objectE by blast
  from assms(1) obtain K where K: "K \<subseteq> N" "d1 = VObject (drop_keys K fs)"
    unfolding d ctx_shrunk_object by blast
  from assms(2) obtain K' where K': "K' \<subseteq> N" "d2 = VObject (drop_keys K' (drop_keys K fs))"
    unfolding K(2) ctx_shrunk_object by blast
  have "K \<union> K' \<subseteq> N \<and> d2 = VObject (drop_keys (K \<union> K') fs)"
    using K(1) K' by (simp add: drop_keys_twice)
  then show ?thesis unfolding d ctx_shrunk_object by blast
next
  case False
  with assms show ?thesis by (simp add: ctx_shrunk_other)
qed

lemma object_remove_object: "object_remove name (VObject fs) = VObject (drop_keys {name} fs)"
  by (simp add: object_remove_def delete_drop_keys)

lemma object_remove_other: "\<not> is_object d \<Longrightarrow> object_remove name d = d"
  by (cases d) (simp_all add: object_remove_def is_object_def)

lemma ctx_shrunk_remove:
  assumes "ctx_shrunk N d0 d1"
  shows "ctx_shrunk N (object_remove name d0) (object_remove name d1)"
proof (cases "is_object d0")
  case True
  then obtain fs where d: "d0 = VObject fs" using is_objectE by blast
  from assms obtain K where K: "K \<subseteq> N" "d1 = VObject (drop_keys K fs)"
    unfolding d ctx_shrunk_object by blast
  have "object_remove name d1 = VObject (drop_keys K (drop_keys {name} fs))"
    unfolding K(2) object_remove_object by (simp add: drop_keys_twice Un_commute)
  with K(1) show ?thesis unfolding d object_remove_object ctx_shrunk_object by blast
next
  case False
  with assms show ?thesis by (simp add: ctx_shrunk_other object_remove_other)
qed

lemma object_remove_set: "object_remove name (object_set name v d) = object_remove name d"
  by (cases d) (simp_all add: object_remove_def object_set_def delete_update_same)

lemma ctx_shrunk_removed: "name \<in> N \<Longrightarrow> ctx_shrunk N d (object_remove name d)"
proof (cases "is_object d")
  case True
  assume n: "name \<in> N"
  from True obtain fs where d: "d = VObject fs" using is_objectE by blast
  from n have "{name} \<subseteq> N \<and> VObject (drop_keys {name} fs) = VObject (drop_keys {name} fs)"
    by simp
  then show ?thesis unfolding d object_remove_object ctx_shrunk_object by blast
next
  case False
  then show ?thesis by (simp add: ctx_shrunk_other object_remove_other)
qed

lemma loop_names_nth:
  "i < length ps \<Longrightarrow> set (loop_names e depth (ps ! i)) \<subseteq> set (loop_names_list e depth ps)"
proof (induction ps arbitrary: i)
  case Nil
  then show ?case by simp
next
  case (Cons a ps)
  show ?case
  proof (cases i)
    case 0
    then show ?thesis by simp
  next
    case (Suc j)
    with Cons.prems have "j < length ps" by simp
    from Cons.IH[OF this] Suc show ?thesis by auto
  qed
qed

lemma render_shrinks:
  shows "render e depth p data out = Inr (d', out') \<Longrightarrow> set (loop_names e depth p) \<subseteq> N
           \<Longrightarrow> ctx_shrunk N data d'"
    and "render_parts e depth ps data out = Inr (d', out')
           \<Longrightarrow> set (loop_names_list e depth ps) \<subseteq> N \<Longrightarrow> ctx_shrunk N data d'"
    and "render_logic e depth ps qs count data out = Inr (d', out')
           \<Longrightarrow> set (loop_names_list e depth ps) \<subseteq> N \<Longrightarrow> ctx_shrunk N data d'"
    and "render_loop e depth name ps vs data out = Inr (d', out') \<Longrightarrow> name \<in> N
           \<Longrightarrow> set (loop_names_list e depth ps) \<subseteq> N
           \<Longrightarrow> ctx_shrunk N (object_remove name data) (object_remove name d')"
proof (induction e depth p data out and e depth ps data out and e depth ps qs count data out
         and e depth name ps vs data out arbitrary: d' out' and d' out' and d' out' and d' out'
         rule: render_render_parts_render_logic_render_loop.induct)
  case (1 e depth content data out)
  then show ?case by (auto simp: ctx_shrunk_refl)
next
  case (2 e depth ps data out)
  then show ?case by simp
next
  case (3 e depth query data out)
  then show ?case by (auto simp: ctx_shrunk_refl Let_def split: if_splits)
next
  case (4 e depth ps qs data out)
  then show ?case by simp
next
  case (5 e depth name query ps data out)
  show ?case
  proof (cases "is_object data")
    case False
    with 5 show ?thesis by (auto simp: ctx_shrunk_refl)
  next
    case True
    show ?thesis
    proof (cases "findArray e data query")
      case None
      with 5 True show ?thesis by (auto simp: ctx_shrunk_refl)
    next
      case (Some array)
      from "5.prems" True Some obtain d1 where
        r: "render_loop e depth name ps array data out = Inr (d1, out')" and d': "d' = object_remove name d1"
        by (auto split: sum.splits)
      have "ctx_shrunk N (object_remove name data) (object_remove name d1)"
        using "5.IH"[OF True Some r] "5.prems" by simp
      moreover have "ctx_shrunk N data (object_remove name data)"
        using "5.prems" by (simp add: ctx_shrunk_removed)
      ultimately show ?thesis unfolding d' by (rule ctx_shrunk_trans[rotated])
    qed
  qed
next
  case (6 e path data out)
  then show ?case by simp
next
  case (7 e depth path data out)
  from "7.prems" obtain tpl r where
    t: "include_template e path = Inr tpl" and p: "parts tpl = Some r" and
    r: "render e depth r data out = Inr (d', out')"
    by (auto split: sum.splits option.splits)
  have "set (loop_names e depth r) \<subseteq> N"
    using "7.prems"(2) t p by simp
  with "7.IH"[OF t p r] show ?case by simp
next
  case (8 e depth data out)
  then show ?case by (auto simp: ctx_shrunk_refl)
next
  case (9 e depth p ps data out)
  from "9.prems" obtain d1 o1 where
    a: "render e depth p data out = Inr (d1, o1)" and b: "render_parts e depth ps d1 o1 = Inr (d', out')"
    by (auto split: sum.splits)
  have "ctx_shrunk N data d1" using "9.IH"(1)[OF a] "9.prems" by simp
  moreover have "ctx_shrunk N d1 d'" using "9.IH"(2)[OF a refl b] "9.prems" by simp
  ultimately show ?case by (rule ctx_shrunk_trans)
next
  case (10 e depth ps count data out)
  then show ?case by (auto simp: ctx_shrunk_refl)
next
  case (11 e depth ps q qs count data out)
  show ?case
  proof (cases "apply_query e q data \<and> length ps > count")
    case True
    then have "set (loop_names e depth (ps ! count)) \<subseteq> N"
      using "11.prems"(2) loop_names_nth[of count ps e depth] by blast
    with "11.IH"(1)[OF True] "11.prems" True show ?thesis by simp
  next
    case False
    with "11.IH"(2)[OF False] "11.prems" show ?thesis by auto
  qed
next
  case (12 e depth name ps data out)
  then show ?case by (auto simp: ctx_shrunk_refl)
next
  case (13 e depth name ps v vs data out)
  from "13.prems" obtain d1 o1 where
    a: "render_parts e depth ps (object_set name v data) out = Inr (d1, o1)" and
    b: "render_loop e depth name ps vs d1 o1 = Inr (d', out')"
    by (auto split: sum.splits)
  have "ctx_shrunk N (object_set name v data) d1" using "13.IH"(1)[OF a] "13.prems" by simp
  then have "ctx_shrunk N (object_remove name data) (object_remove name d1)"
    using ctx_shrunk_remove[of N "object_set name v data" d1 name] by (simp add: object_remove_set)
  moreover have "ctx_shrunk N (object_remove name d1) (object_remove name d')"
    using "13.IH"(2)[OF a refl b] "13.prems" by simp
  ultimately show ?case by (rule ctx_shrunk_trans)
qed


text \<open>Rendering appends to the output stream and does not read it.\<close>

definition prefix_out :: "string \<Rightarrow> fault + var \<times> string \<Rightarrow> fault + var \<times> string" where
  "prefix_out out r = (case r of Inl f \<Rightarrow> Inl f | Inr (d, txt) \<Rightarrow> Inr (d, out @ txt))"

lemma prefix_out_simps [simp]:
  "prefix_out out (Inl f) = Inl f"
  "prefix_out out (Inr (d, txt)) = Inr (d, out @ txt)"
  by (simp_all add: prefix_out_def)

lemma prefix_out_twice: "prefix_out out (prefix_out txt r) = prefix_out (out @ txt) r"
  by (cases r) (auto simp: prefix_out_def)

lemma prefix_out_Nil: "prefix_out [] r = r"
  by (cases r) (auto simp: prefix_out_def)

lemma render_appends:
  fixes out :: string
  shows "render e depth p data out2 = prefix_out out2 (render e depth p data [])"
    and "render_parts e depth ps data out2 = prefix_out out2 (render_parts e depth ps data [])"
    and "render_logic e depth ps qs count data out2 =
           prefix_out out2 (render_logic e depth ps qs count data [])"
    and "render_loop e depth name ps vs data out2 =
           prefix_out out2 (render_loop e depth name ps vs data [])"
proof (induction e depth p data out and e depth ps data out and e depth ps qs count data out
         and e depth name ps vs data out arbitrary: out2 and out2 and out2 and out2
         rule: render_render_parts_render_logic_render_loop.induct)
  case (1 e depth content data out)
  show ?case by simp
next
  case (2 e depth ps data out)
  show ?case using "2.IH"[of out2] by simp
next
  case (3 e depth query data out)
  show ?case by (simp add: Let_def)
next
  case (4 e depth ps qs data out)
  show ?case using "4.IH"[of out2] by simp
next
  case (5 e depth name query ps data out)
  show ?case
  proof (cases "is_object data")
    case False
    then show ?thesis by simp
  next
    case True
    show ?thesis
    proof (cases "findArray e data query")
      case None
      with True show ?thesis by simp
    next
      case (Some array)
      have ih: "render_loop e depth name ps array data out2 =
                  prefix_out out2 (render_loop e depth name ps array data [])"
        using "5.IH"[OF True Some, of out2] .
      show ?thesis
      proof (cases "render_loop e depth name ps array data []")
        case (Inl f)
        with ih True Some show ?thesis by simp
      next
        case (Inr r)
        obtain d tx where "r = (d, tx)" by (cases r)
        with Inr ih True Some show ?thesis by simp
      qed
    qed
  qed
next
  case (6 e path data out)
  show ?case by simp
next
  case (7 e depth path data out)
  show ?case
  proof (cases "include_template e path")
    case (Inl f)
    then show ?thesis by simp
  next
    case (Inr tpl)
    show ?thesis
    proof (cases "parts tpl")
      case None
      with Inr show ?thesis by simp
    next
      case (Some r)
      with "7.IH"[OF Inr Some, of out2] Inr show ?thesis by simp
    qed
  qed
next
  case (8 e depth data out)
  show ?case by simp
next
  case (9 e depth p ps data out)
  have ih1: "\<And>w. render e depth p data w = prefix_out w (render e depth p data [])"
    using "9.IH"(1) .
  show ?case
  proof (cases "render e depth p data []")
    case (Inl f)
    with ih1[of out2] show ?thesis by simp
  next
    case (Inr r)
    obtain d1 t1 where r: "r = (d1, t1)" by (cases r)
    have a: "render e depth p data out = Inr (d1, out @ t1)" using ih1[of out] Inr r by simp
    have ih2: "\<And>w. render_parts e depth ps d1 w = prefix_out w (render_parts e depth ps d1 [])"
      using "9.IH"(2)[OF a refl] .
    have "render_parts e depth (p # ps) data out2 = render_parts e depth ps d1 (out2 @ t1)"
      using ih1[of out2] Inr r by simp
    also have "\<dots> = prefix_out (out2 @ t1) (render_parts e depth ps d1 [])" by (rule ih2)
    also have "\<dots> = prefix_out out2 (render_parts e depth ps d1 t1)"
      using ih2[of t1] by (simp add: prefix_out_twice)
    also have "\<dots> = prefix_out out2 (render_parts e depth (p # ps) data [])"
      using Inr r by simp
    finally show ?thesis .
  qed
next
  case (10 e depth ps count data out)
  show ?case by simp
next
  case (11 e depth ps q qs count data out)
  show ?case
  proof (cases "apply_query e q data \<and> length ps > count")
    case True
    with "11.IH"(1)[OF True, of out2] show ?thesis by simp
  next
    case False
    with "11.IH"(2)[OF False, of out2] show ?thesis by auto
  qed
next
  case (12 e depth name ps data out)
  show ?case by simp
next
  case (13 e depth name ps v vs data out)
  have ih1: "\<And>w. render_parts e depth ps (object_set name v data) w =
                prefix_out w (render_parts e depth ps (object_set name v data) [])"
    using "13.IH"(1) .
  show ?case
  proof (cases "render_parts e depth ps (object_set name v data) []")
    case (Inl f)
    with ih1[of out2] show ?thesis by simp
  next
    case (Inr r)
    obtain d1 t1 where r: "r = (d1, t1)" by (cases r)
    have a: "render_parts e depth ps (object_set name v data) out = Inr (d1, out @ t1)"
      using ih1[of out] Inr r by simp
    have ih2: "\<And>w. render_loop e depth name ps vs d1 w =
                  prefix_out w (render_loop e depth name ps vs d1 [])"
      using "13.IH"(2)[OF a refl] .
    have "render_loop e depth name ps (v # vs) data out2 =
            render_loop e depth name ps vs d1 (out2 @ t1)"
      using ih1[of out2] Inr r by simp
    also have "\<dots> = prefix_out (out2 @ t1) (render_loop e depth name ps vs d1 [])" by (rule ih2)
    also have "\<dots> = prefix_out out2 (render_loop e depth name ps vs d1 t1)"
      using ih2[of t1] by (simp add: prefix_out_twice)
    also have "\<dots> = prefix_out out2 (render_loop e depth name ps (v # vs) data [])"
      using Inr r by simp
    finally show ?thesis .
  qed
qed


lemma has_field_object: "has_field (VObject fs) k = (k \<in> fst ` set fs)"
proof (cases "map_of fs k")
  case None
  then have "k \<notin> fst ` set fs" using map_of_eq_None_iff[of fs k] by simp
  with None show ?thesis by (simp add: has_field_def object_get_def)
next
  case (Some v)
  then have "k \<in> fst ` set fs" using map_of_eq_None_iff[of fs k] by simp
  with Some show ?thesis by (simp add: has_field_def object_get_def)
qed

lemma has_field_other: "\<not> is_object d \<Longrightarrow> has_field d k = False"
  by (cases d) (simp_all add: has_field_def object_get_def is_object_def)

lemma has_field_removed: "\<not> has_field (object_remove name d) name"
proof (cases "is_object d")
  case True
  then obtain fs where "d = VObject fs" using is_objectE by blast
  then show ?thesis
    by (auto simp: object_remove_object has_field_object drop_keys_def)
next
  case False
  then show ?thesis by (simp add: object_remove_other has_field_other)
qed

lemma ctx_shrunk_no_fields:
  assumes "ctx_shrunk N data d'" and "\<forall>k\<in>N. \<not> has_field data k"
  shows "d' = data"
proof (cases "is_object data")
  case True
  then obtain fs where d: "data = VObject fs" using is_objectE by blast
  from assms(1) obtain K where K: "K \<subseteq> N" "d' = VObject (drop_keys K fs)"
    unfolding d ctx_shrunk_object by blast
  have "K \<inter> fst ` set fs = {}"
    using assms(2) K(1) unfolding d has_field_object by blast
  then show ?thesis unfolding d K(2) by (simp add: drop_keys_disjoint)
next
  case False
  with assms(1) show ?thesis by (simp add: ctx_shrunk_other)
qed

lemma render_for_items:
  "render example_env depth (LoopPart ''x'' ''items'' [EchoPart ''x'', StringPart '',''])
     (VObject [(''items'', VArray [VInt 1, VInt 2, VInt 3])]) [] =
   Inr (VObject [(''items'', VArray [VInt 1, VInt 2, VInt 3])], ''1,2,3,'')"
  by code_simp


text \<open>
  An environment with two files: \<open>inc.tpl\<close>, with a loop over \<open>y\<close>, and \<open>other.tpl\<close>,
  with a loop over \<open>keep\<close>, which the examples below never include.
\<close>

definition files_env :: env where
  "files_env =
     example_env\<lparr>fileContents :=
       map_of [(''inc.tpl'', ''<? for y rows ?><?= y ?>;<? endfor ?>''),
               (''other.tpl'', ''<? for keep rows ?><? endfor ?>'')]\<rparr>"

lemma files_env_templates:
  "include_template files_env ''inc.tpl'' =
     Inr \<lparr>parts = Some (MultiPart [LoopPart ''y'' ''rows'' [EchoPart ''y'', StringPart '';'']]),
          currentPart = Some [0], partStack = [], templatePath = ''inc.tpl'', leaked = []\<rparr>"
  "include_template files_env ''other.tpl'' =
     Inr \<lparr>parts = Some (MultiPart [LoopPart ''keep'' ''rows'' []]),
          currentPart = Some [0], partStack = [], templatePath = ''other.tpl'', leaked = []\<rparr>"
  "compile files_env ''<? for x items ?><? include \"inc.tpl\" ?><? endfor ?>'' =
     Inr \<lparr>parts = Some (MultiPart [LoopPart ''x'' ''items'' [IncludePart ''inc.tpl'']]),
          currentPart = Some [0], partStack = [], templatePath = [], leaked = []\<rparr>"
  "compile files_env ''a<? include \"inc.tpl\" ?>'' =
     Inr \<lparr>parts = Some (MultiPart [StringPart ''a'', IncludePart ''inc.tpl'']),
          currentPart = Some [0], partStack = [], templatePath = [], leaked = []\<rparr>"
  by code_simp+

lemma files_env_loop_names:
  "loop_names files_env 1 (LoopPart ''x'' ''items'' [IncludePart ''inc.tpl'']) = [''x'', ''y'']"
  "loop_names files_env 1 (MultiPart [StringPart ''a'', IncludePart ''inc.tpl'']) = [''y'']"
  "loop_names files_env 1 (IncludePart ''other.tpl'') = [''keep'']"
  by code_simp+

lemma render_for_include:
  "render files_env 1 (LoopPart ''x'' ''items'' [IncludePart ''inc.tpl''])
     (VObject [(''items'', VArray [VInt 1, VInt 2]), (''rows'', VArray [VInt 7, VInt 8]),
               (''keep'', VString ''k'')]) [] =
   Inr (VObject [(''items'', VArray [VInt 1, VInt 2]), (''rows'', VArray [VInt 7, VInt 8]),
                 (''keep'', VString ''k'')], ''7;8;7;8;'')"
  by code_simp

lemma render_text_include:
  "render files_env 1 (MultiPart [StringPart ''a'', IncludePart ''inc.tpl''])
     (VObject [(''rows'', VArray [VInt 7, VInt 8]), (''keep'', VString ''k'')]) out =
   Inr (VObject [(''rows'', VArray [VInt 7, VInt 8]), (''keep'', VString ''k'')],
        out @ ''a7;8;'')"
proof -
  have "render files_env 1 (MultiPart [StringPart ''a'', IncludePart ''inc.tpl''])
     (VObject [(''rows'', VArray [VInt 7, VInt 8]), (''keep'', VString ''k'')]) [] =
   Inr (VObject [(''rows'', VArray [VInt 7, VInt 8]), (''keep'', VString ''k'')], ''a7;8;'')"
    by code_simp
  then show ?thesis
    using render_appends(1)[of files_env 1 "MultiPart [StringPart ''a'', IncludePart ''inc.tpl'']"
        "VObject [(''rows'', VArray [VInt 7, VInt 8]), (''keep'', VString ''k'')]" out]
    by simp
qed

lemma drop_keys_insert: "drop_keys (insert k K) fs = drop_keys {k} (drop_keys K fs)"
  by (simp add: drop_keys_twice)

lemma object_remove_twice: "object_remove name (object_remove name d) = object_remove name d"
proof (cases "is_object d")
  case True
  then obtain fs where "d = VObject fs" using is_objectE by blast
  then show ?thesis by (simp add: object_remove_object drop_keys_twice)
next
  case False
  then show ?thesis by (simp add: object_remove_other)
qed

text \<open>
  C4 (as amended). For every loop render over an existing array that returns, the
  loop-variable field is removed after the last iteration, so the context has no field of
  that name afterwards. What is left of the context is the context before the loop without
  some fields, all of them named like a loop variable of the loop, of its body or of the
  templates the body includes, the variable of the loop among them. So every field not
  named like one of these loop variables keeps its value, and the context is exactly its
  pre-loop value when it had no field named like one of them; the loop variables of
  templates the loop does not include play no part. Nothing is saved before the field is
  set: a field of that name the context had before the loop is deleted, and after an inner
  loop with the same variable name the binding of the outer loop is absent.
\<close>

theorem loop_context_after:
  assumes "findArray e (VObject fs) query = Some array"
    and "render e depth (LoopPart name query body) (VObject fs) out = Inr (d', out')"
  shows "\<not> has_field d' name
       \<and> (\<exists>K. name \<in> K \<and> K \<subseteq> set (loop_names e depth (LoopPart name query body))
              \<and> d' = VObject (drop_keys K fs))
       \<and> (\<forall>k. k \<notin> set (loop_names e depth (LoopPart name query body)) \<longrightarrow>
              object_get d' k = map_of fs k)
       \<and> (set (loop_names e depth (LoopPart name query body)) \<inter> fst ` set fs = {} \<longrightarrow>
              d' = VObject fs)"
proof -
  let ?N = "set (loop_names e depth (LoopPart name query body))"
  from assms obtain d1 where d1: "d' = object_remove name d1"
    by (auto simp: is_object_def split: sum.splits)
  then have a: "\<not> has_field d' name" by (simp add: has_field_removed)
  have "ctx_shrunk ?N (VObject fs) d'"
    using render_shrinks(1)[OF assms(2), of ?N] by simp
  then obtain K where K: "K \<subseteq> ?N" "d' = VObject (drop_keys K fs)"
    unfolding ctx_shrunk_object by blast
  have "d' = object_remove name d'" unfolding d1 by (simp add: object_remove_twice)
  also have "\<dots> = VObject (drop_keys (insert name K) fs)"
    unfolding K(2) object_remove_object by (simp add: drop_keys_twice)
  finally have "name \<in> insert name K \<and> insert name K \<subseteq> ?N
                \<and> d' = VObject (drop_keys (insert name K) fs)"
    using K(1) by simp
  then have b: "\<exists>K. name \<in> K \<and> K \<subseteq> ?N \<and> d' = VObject (drop_keys K fs)" by blast
  have c: "\<forall>k. k \<notin> ?N \<longrightarrow> object_get d' k = map_of fs k"
    using K by (auto simp: object_get_def map_of_drop_keys)
  have d: "?N \<inter> fst ` set fs = {} \<longrightarrow> d' = VObject fs"
  proof
    assume "?N \<inter> fst ` set fs = {}"
    with K(1) have "K \<inter> fst ` set fs = {}" by blast
    then show "d' = VObject fs" unfolding K(2) by (simp add: drop_keys_disjoint)
  qed
  from a b c d show ?thesis by blast
qed

theorem loop_context_after_witness:
  "findArray files_env
     (VObject [(''items'', VArray [VInt 1, VInt 2]), (''rows'', VArray [VInt 7, VInt 8]),
               (''keep'', VString ''k'')]) ''items'' = Some [VInt 1, VInt 2]
   \<and> render files_env 1 (LoopPart ''x'' ''items'' [IncludePart ''inc.tpl''])
        (VObject [(''items'', VArray [VInt 1, VInt 2]), (''rows'', VArray [VInt 7, VInt 8]),
                  (''keep'', VString ''k'')]) [] =
       Inr (VObject [(''items'', VArray [VInt 1, VInt 2]), (''rows'', VArray [VInt 7, VInt 8]),
                     (''keep'', VString ''k'')], ''7;8;7;8;'')
   \<and> loop_names files_env 1 (LoopPart ''x'' ''items'' [IncludePart ''inc.tpl'']) = [''x'', ''y'']
   \<and> loop_names files_env 1 (IncludePart ''other.tpl'') = [''keep'']
   \<and> ''keep'' \<notin> set (loop_names files_env 1 (LoopPart ''x'' ''items'' [IncludePart ''inc.tpl'']))
   \<and> set (loop_names files_env 1 (LoopPart ''x'' ''items'' [IncludePart ''inc.tpl'']))
        \<inter> fst ` set [(''items'', VArray [VInt 1, VInt 2]), (''rows'', VArray [VInt 7, VInt 8]),
                       (''keep'', VString ''k'')] = {}
   \<and> \<not> has_field (VObject [(''items'', VArray [VInt 1, VInt 2]),
                            (''rows'', VArray [VInt 7, VInt 8]), (''keep'', VString ''k'')]) ''x''
   \<and> object_get (VObject [(''items'', VArray [VInt 1, VInt 2]),
                          (''rows'', VArray [VInt 7, VInt 8]), (''keep'', VString ''k'')]) ''keep'' =
       map_of [(''items'', VArray [VInt 1, VInt 2]), (''rows'', VArray [VInt 7, VInt 8]),
               (''keep'', VString ''k'')] ''keep''"
proof -
  let ?fs = "[(''items'', VArray [VInt 1, VInt 2]), (''rows'', VArray [VInt 7, VInt 8]),
              (''keep'', VString ''k'')]"
  let ?p = "LoopPart ''x'' ''items'' [IncludePart ''inc.tpl'']"
  have h1: "findArray files_env (VObject ?fs) ''items'' = Some [VInt 1, VInt 2]"
    by (simp add: files_env_def example_env_def example_findArray_def example_find_def)
  have h2: "render files_env 1 ?p (VObject ?fs) [] = Inr (VObject ?fs, ''7;8;7;8;'')"
    by (rule render_for_include)
  have n: "loop_names files_env 1 ?p = [''x'', ''y'']" by (rule files_env_loop_names(1))
  have h3: "''keep'' \<notin> set (loop_names files_env 1 ?p)" unfolding n by simp
  have h4: "set (loop_names files_env 1 ?p) \<inter> fst ` set ?fs = {}" unfolding n by simp
  from loop_context_after[OF h1 h2] h3 h4
  have "\<not> has_field (VObject ?fs) ''x''
        \<and> object_get (VObject ?fs) ''keep'' = map_of ?fs ''keep''"
    by blast
  with h1 h2 n h3 h4 files_env_loop_names(3) show ?thesis by blast
qed

text \<open>
  C4 as stated fails: a context that holds a field \<open>x\<close> before a loop over \<open>x\<close> comes
  back without it, and in a loop over \<open>x\<close> nested in a loop over \<open>x\<close> the echo of \<open>x\<close>
  behind the inner loop writes nothing.
\<close>

theorem loop_context_restoration_counterexample:
  "render example_env 0 (LoopPart ''x'' ''items'' [])
     (VObject [(''x'', VString ''keep''), (''items'', VArray [VInt 1])]) [] =
     Inr (VObject [(''items'', VArray [VInt 1])], [])
   \<and> VObject [(''items'', VArray [VInt 1])] \<noteq>
       VObject [(''x'', VString ''keep''), (''items'', VArray [VInt 1])]
   \<and> render example_env 0
         (LoopPart ''x'' ''outer'' [LoopPart ''x'' ''inner'' [StringPart ''i''], EchoPart ''x''])
         (VObject [(''outer'', VArray [VInt 1]), (''inner'', VArray [VInt 2])]) [] =
       Inr (VObject [(''outer'', VArray [VInt 1]), (''inner'', VArray [VInt 2])], ''i'')"
  by code_simp

text \<open>
  C5 (as amended). For every template and data context such that no loop-variable name of
  the template or of the templates it includes is a field of the context, a render that
  returns leaves the context as it was, and a second render with that context appends the
  same text to the output. The loop variables of templates it does not include play no
  part.
\<close>

theorem render_twice_same_output:
  assumes "\<forall>k\<in>set (template_loop_names e depth t). \<not> has_field data k"
    and "Template_render e depth t data out = Inr (d1, out1)"
  shows "d1 = data
       \<and> (\<exists>tx. out1 = out @ tx \<and> Template_render e depth t d1 out1 = Inr (d1, out1 @ tx))"
proof -
  from assms(2) obtain r where r: "parts t = Some r" "render e depth r data out = Inr (d1, out1)"
    by (auto simp: Template_render_def split: option.splits)
  have n: "template_loop_names e depth t = loop_names e depth r"
    using r(1) by (simp add: template_loop_names_def)
  have "ctx_shrunk (set (loop_names e depth r)) data d1"
    using render_shrinks(1)[OF r(2), of "set (loop_names e depth r)"] by simp
  then have d: "d1 = data" using assms(1) unfolding n by (rule ctx_shrunk_no_fields)
  have app: "\<And>w. render e depth r data w = prefix_out w (render e depth r data [])"
    by (rule render_appends(1))
  from r(2) app[of out] obtain tx where tx: "render e depth r data [] = Inr (d1, tx)" "out1 = out @ tx"
    by (cases "render e depth r data []") (auto simp: prefix_out_def)
  have "Template_render e depth t d1 out1 = Inr (d1, out1 @ tx)"
    using app[of out1] tx(1) r(1) d by (simp add: Template_render_def)
  with d tx(2) show ?thesis by blast
qed

lemma compile_echo_for:
  "compile example_env ''<?= x ?><? for x items ?><? endfor ?>'' =
     Inr \<lparr>parts = Some (MultiPart [EchoPart ''x'', LoopPart ''x'' ''items'' []]),
          currentPart = Some [0], partStack = [], templatePath = [], leaked = []\<rparr>"
  by code_simp

text \<open>
  C5 as stated fails: the first render of \<open><?= x ?><? for x items ?><? endfor ?>\<close> against
  \<open>{"x":"a","items":[1]}\<close> writes \<open>a\<close> and deletes the field \<open>x\<close>; the second render,
  with the context the first one left, writes nothing.
\<close>

theorem render_twice_counterexample:
  "compile example_env ''<?= x ?><? for x items ?><? endfor ?>'' =
     Inr \<lparr>parts = Some (MultiPart [EchoPart ''x'', LoopPart ''x'' ''items'' []]),
          currentPart = Some [0], partStack = [], templatePath = [], leaked = []\<rparr>
   \<and> Template_render example_env 0
         \<lparr>parts = Some (MultiPart [EchoPart ''x'', LoopPart ''x'' ''items'' []]),
          currentPart = Some [0], partStack = [], templatePath = [], leaked = []\<rparr>
         (VObject [(''x'', VString ''a''), (''items'', VArray [VInt 1])]) [] =
       Inr (VObject [(''items'', VArray [VInt 1])], ''a'')
   \<and> Template_render example_env 0
         \<lparr>parts = Some (MultiPart [EchoPart ''x'', LoopPart ''x'' ''items'' []]),
          currentPart = Some [0], partStack = [], templatePath = [], leaked = []\<rparr>
         (VObject [(''items'', VArray [VInt 1])]) [] =
       Inr (VObject [(''items'', VArray [VInt 1])], [])"
  by code_simp

theorem render_twice_same_output_witness:
  "template_loop_names files_env 1
        \<lparr>parts = Some (MultiPart [StringPart ''a'', IncludePart ''inc.tpl'']),
         currentPart = Some [0], partStack = [], templatePath = [], leaked = []\<rparr> = [''y'']
   \<and> loop_names files_env 1 (IncludePart ''other.tpl'') = [''keep'']
   \<and> has_field (VObject [(''rows'', VArray [VInt 7, VInt 8]), (''keep'', VString ''k'')]) ''keep''
   \<and> \<not> has_field (VObject [(''rows'', VArray [VInt 7, VInt 8]), (''keep'', VString ''k'')]) ''y''
   \<and> Template_render files_env 1
        \<lparr>parts = Some (MultiPart [StringPart ''a'', IncludePart ''inc.tpl'']),
         currentPart = Some [0], partStack = [], templatePath = [], leaked = []\<rparr>
        (VObject [(''rows'', VArray [VInt 7, VInt 8]), (''keep'', VString ''k'')]) [] =
       Inr (VObject [(''rows'', VArray [VInt 7, VInt 8]), (''keep'', VString ''k'')], ''a7;8;'')
   \<and> Template_render files_env 1
        \<lparr>parts = Some (MultiPart [StringPart ''a'', IncludePart ''inc.tpl'']),
         currentPart = Some [0], partStack = [], templatePath = [], leaked = []\<rparr>
        (VObject [(''rows'', VArray [VInt 7, VInt 8]), (''keep'', VString ''k'')]) ''a7;8;'' =
       Inr (VObject [(''rows'', VArray [VInt 7, VInt 8]), (''keep'', VString ''k'')],
            ''a7;8;a7;8;'')"
proof -
  let ?t = "\<lparr>parts = Some (MultiPart [StringPart ''a'', IncludePart ''inc.tpl'']),
             currentPart = Some [0], partStack = [], templatePath = [], leaked = []\<rparr>"
  let ?d = "VObject [(''rows'', VArray [VInt 7, VInt 8]), (''keep'', VString ''k'')]"
  have n: "template_loop_names files_env 1 ?t = [''y'']"
    by code_simp
  have k: "has_field ?d ''keep''" by (simp add: has_field_object)
  have y: "\<not> has_field ?d ''y''" by (simp add: has_field_object)
  have h1: "\<forall>k\<in>set (template_loop_names files_env 1 ?t). \<not> has_field ?d k"
    unfolding n using y by simp
  have h2: "Template_render files_env 1 ?t ?d [] = Inr (?d, ''a7;8;'')"
    using render_text_include[of "[]"] by (simp add: Template_render_def)
  from render_twice_same_output[OF h1 h2]
  have "Template_render files_env 1 ?t ?d ''a7;8;'' = Inr (?d, ''a7;8;a7;8;'')" by simp
  with n k y h2 files_env_loop_names(3) show ?thesis by blast
qed


section \<open>Text without directives, the end of the input, and null templates\<close>

text \<open>The input holds the directive opener somewhere.\<close>

fun has_opener :: "string \<Rightarrow> bool" where
  "has_opener (c # d # cs) = ((c = CHR ''<'' \<and> d = CHR ''?'') \<or> has_opener (d # cs))"
| "has_opener cs = False"

lemma readWhiteSpace_not_good: "\<not> good s \<Longrightarrow> readWhiteSpace s = s\<lparr>failbit := True\<rparr>"
  by (subst readWhiteSpace.simps) (simp add: peek_def)

lemma readWhiteSpace_good:
  "good s \<Longrightarrow> readWhiteSpace s =
     (if dropWhile isSpace (buf s) = [] then s\<lparr>buf := [], eofbit := True\<rparr>
      else s\<lparr>buf := dropWhile isSpace (buf s)\<rparr>)"
proof (induction "buf s" arbitrary: s)
  case Nil
  then show ?case by (subst readWhiteSpace.simps) (simp add: peek_def)
next
  case (Cons c cs)
  have b: "buf s = c # cs" using Cons.hyps(2) by simp
  show ?case
  proof (cases "isSpace c")
    case False
    with Cons.prems b show ?thesis by (subst readWhiteSpace.simps) (simp add: peek_def)
  next
    case True
    let ?s1 = "s\<lparr>buf := cs\<rparr>"
    have g1: "good ?s1" using Cons.prems by (simp add: good_def)
    have "readWhiteSpace s = readWhiteSpace ?s1"
      using Cons.prems b True by (subst readWhiteSpace.simps) (simp add: peek_def get_def)
    also have "\<dots> = (if dropWhile isSpace (buf ?s1) = [] then ?s1\<lparr>buf := [], eofbit := True\<rparr>
      else ?s1\<lparr>buf := dropWhile isSpace (buf ?s1)\<rparr>)"
      using Cons.hyps(1)[of ?s1] g1 by simp
    finally show ?thesis using b True by simp
  qed
qed

lemma readText_while_None: "readText_while t None s = (t, s)"
  by (subst readText_while.simps) simp

lemma readTemplateCommand_while_None: "readTemplateCommand_while w None s = (w, s)"
  by (subst readTemplateCommand_while.simps) simp

lemma readText_while_no_opener:
  "good s \<Longrightarrow> \<not> has_opener (ch # buf s) \<Longrightarrow>
   readText_while t (Some ch) s = (t @ ch # buf s, s\<lparr>buf := [], eofbit := True, failbit := True\<rparr>)"
proof (induction "buf s" arbitrary: s t ch)
  case Nil
  then have b: "buf s = []" by simp
  show ?case
    using Nil.prems(1) b
    by (subst readText_while.simps)
       (simp add: peek_def get_def good_def readText_while_None)
next
  case (Cons c cs)
  have b: "buf s = c # cs" using Cons.hyps(2) by simp
  let ?s1 = "s\<lparr>buf := cs\<rparr>"
  have g1: "good ?s1" using Cons.prems(1) by (simp add: good_def)
  have no: "\<not> has_opener (c # buf ?s1)" using Cons.prems(2) b by simp
  have nq: "ch = CHR ''<'' \<Longrightarrow> c \<noteq> CHR ''?''" using Cons.prems(2) b by auto
  have "readText_while t (Some ch) s = readText_while (t @ [ch]) (Some c) ?s1"
    using Cons.prems(1) b nq by (subst readText_while.simps) (simp add: peek_def get_def)
  also have "\<dots> = ((t @ [ch]) @ c # buf ?s1, ?s1\<lparr>buf := [], eofbit := True, failbit := True\<rparr>)"
    using Cons.hyps(1)[of ?s1 c "t @ [ch]"] g1 no by simp
  finally show ?case using b by simp
qed

lemma readText_no_opener:
  assumes "good s" "\<not> has_opener (buf s)"
  shows "readText s = (buf s, s\<lparr>buf := [], eofbit := True, failbit := True\<rparr>)"
proof (cases "buf s")
  case Nil
  with assms show ?thesis
    by (simp add: readText_def get_def readText_while_None)
next
  case (Cons c cs)
  let ?s1 = "s\<lparr>buf := cs\<rparr>"
  have "good ?s1" using assms(1) by (simp add: good_def)
  moreover have "\<not> has_opener (c # buf ?s1)" using assms(2) Cons by simp
  ultimately have "readText_while [] (Some c) ?s1 =
      ([] @ c # buf ?s1, ?s1\<lparr>buf := [], eofbit := True, failbit := True\<rparr>)"
    by (rule readText_while_no_opener)
  with assms(1) Cons show ?thesis by (simp add: readText_def get_def)
qed

lemma readTemplateCommand_at_end:
  "\<not> good s \<Longrightarrow> fst (readTemplateCommand s) = []"
  by (simp add: readTemplateCommand_def readWhiteSpace_not_good get_def good_def
        readTemplateCommand_while_None)

lemma parse_loop_text_only:
  assumes "good s" "\<not> has_opener (buf s)"
  shows "parse_loop e st s =
           Inr (if buf s = [] then st else current_addPart (StringPart (buf s)) st)"
proof -
  let ?s1 = "s\<lparr>buf := [], eofbit := True, failbit := True\<rparr>"
  have rt: "readText s = (buf s, ?s1)" using assms by (rule readText_no_opener)
  have "\<not> good ?s1" by (simp add: good_def)
  then have "fst (readTemplateCommand ?s1) = []" by (rule readTemplateCommand_at_end)
  then obtain s2 where rc: "readTemplateCommand ?s1 = ([], s2)"
    by (cases "readTemplateCommand ?s1") simp
  have "parse_step e st s =
          Inr (if buf s = [] then st else current_addPart (StringPart (buf s)) st, None)"
    using rt rc by (simp add: parse_step_def)
  with assms(1) show ?thesis by (subst parse_loop.simps) simp
qed


text \<open>
  C8. Literal-text identity. For every input that holds no directive opener \<open><?\<close>,
  parsing succeeds, and rendering the compiled template against any data context appends
  the input to the output as it is and leaves the data alone.
\<close>

theorem literal_text_identity:
  assumes "\<not> has_opener src"
  shows "\<exists>t'. Template_parse_stream e t (istream_of src) = Inr t'
            \<and> (\<forall>depth data out. Template_render e depth t' data out = Inr (data, out @ src))"
proof -
  let ?old = "allocated t"
  let ?st = "\<lparr>root = MultiPart (?old @ [MultiPart []]), current = [length ?old],
              stack = partStack t, tpath = templatePath t\<rparr>"
  have g: "good (istream_of src)" by (simp add: good_def istream_of_def)
  have b: "buf (istream_of src) = src" by (simp add: istream_of_def)
  have pl: "parse_loop e ?st (istream_of src) =
              Inr (if src = [] then ?st else current_addPart (StringPart src) ?st)"
    using parse_loop_text_only[OF g, of e ?st] assms b by simp
  show ?thesis
  proof (cases "src = []")
    case True
    with pl show ?thesis
      by (simp add: Template_parse_stream_def Template_render_def Let_def)
  next
    case False
    have "root (current_addPart (StringPart src) ?st) =
            MultiPart (?old @ [MultiPart [StringPart src]])"
      by (simp add: current_addPart_def)
    with False pl show ?thesis
      by (simp add: Template_parse_stream_def Template_render_def Let_def)
  qed
qed

theorem literal_text_identity_witness:
  "\<not> has_opener ''a < b ?> c''
   \<and> (\<exists>t'. Template_parse_stream example_env Template_default (istream_of ''a < b ?> c'') = Inr t'
          \<and> Template_render example_env 0 t' (VObject [(''a'', VInt 1)]) ''out: '' =
              Inr (VObject [(''a'', VInt 1)], ''out: a < b ?> c''))"
proof -
  have h: "\<not> has_opener ''a < b ?> c''" by simp
  from literal_text_identity[OF h, of example_env Template_default] h show ?thesis
    by auto
qed

lemma compile_if_open:
  "compile example_env ''<? if a ?>yes'' =
     Inr \<lparr>parts = Some (MultiPart [LogicPart [MultiPart [StringPart ''yes'']] [LogicQuery ''a'']]),
          currentPart = Some [0, 0, 0], partStack = [[0, 0], [0]], templatePath = [], leaked = []\<rparr>"
  by code_simp

lemma render_if_open:
  "Template_render example_env depth
     \<lparr>parts = Some (MultiPart [LogicPart [MultiPart [StringPart ''yes'']] [LogicQuery ''a'']]),
      currentPart = Some [0, 0, 0], partStack = [[0, 0], [0]], templatePath = [], leaked = []\<rparr>
     (VObject [(''a'', VInt 1)]) [] = Inr (VObject [(''a'', VInt 1)], ''yes'')"
  by code_simp

text \<open>
  C9. Unterminated blocks are accepted. The loop of \<open>parse\<close> ends when the stream is no
  longer good, or on an empty command, with whatever the nesting stack holds: no
  exception, the tree built so far is kept. In
  particular, when the rest of the input holds no further directive, the rest becomes a
  text part and the stack is returned as it is. \<open><? if a ?>yes\<close> compiles with two entries
  left on the stack, and the partial tree renders \<open>yes\<close> when \<open>a\<close> is true.
\<close>

theorem unterminated_blocks_accepted:
  "(\<not> good s \<longrightarrow> parse_loop e st s = Inr st)
   \<and> (good s \<and> parse_step e st s = Inr (st1, None) \<longrightarrow> parse_loop e st s = Inr st1)
   \<and> (good s \<and> \<not> has_opener (buf s) \<longrightarrow>
        (\<exists>st'. parse_loop e st s = Inr st' \<and> stack st' = stack st
            \<and> root st' = (if buf s = [] then root st
                           else update_at (addPart (StringPart (buf s))) (root st) (current st))))
   \<and> compile example_env ''<? if a ?>yes'' =
       Inr \<lparr>parts = Some (MultiPart [LogicPart [MultiPart [StringPart ''yes'']] [LogicQuery ''a'']]),
            currentPart = Some [0, 0, 0], partStack = [[0, 0], [0]], templatePath = [], leaked = []\<rparr>
   \<and> Template_render example_env depth
        \<lparr>parts = Some (MultiPart [LogicPart [MultiPart [StringPart ''yes'']] [LogicQuery ''a'']]),
         currentPart = Some [0, 0, 0], partStack = [[0, 0], [0]], templatePath = [], leaked = []\<rparr>
        (VObject [(''a'', VInt 1)]) [] = Inr (VObject [(''a'', VInt 1)], ''yes'')"
proof (intro conjI impI)
  assume "\<not> good s"
  then show "parse_loop e st s = Inr st" by (subst parse_loop.simps) simp
next
  assume "good s \<and> parse_step e st s = Inr (st1, None)"
  then show "parse_loop e st s = Inr st1" by (subst parse_loop.simps) simp
next
  assume h: "good s \<and> \<not> has_opener (buf s)"
  then have "parse_loop e st s =
               Inr (if buf s = [] then st else current_addPart (StringPart (buf s)) st)"
    using parse_loop_text_only[of s e st] by simp
  then show "\<exists>st'. parse_loop e st s = Inr st' \<and> stack st' = stack st
            \<and> root st' = (if buf s = [] then root st
                           else update_at (addPart (StringPart (buf s))) (root st) (current st))"
    by (simp add: current_addPart_def)
next
  show "compile example_env ''<? if a ?>yes'' =
       Inr \<lparr>parts = Some (MultiPart [LogicPart [MultiPart [StringPart ''yes'']] [LogicQuery ''a'']]),
            currentPart = Some [0, 0, 0], partStack = [[0, 0], [0]], templatePath = [], leaked = []\<rparr>"
    by (rule compile_if_open)
next
  show "Template_render example_env depth
        \<lparr>parts = Some (MultiPart [LogicPart [MultiPart [StringPart ''yes'']] [LogicQuery ''a'']]),
         currentPart = Some [0, 0, 0], partStack = [[0, 0], [0]], templatePath = [], leaked = []\<rparr>
        (VObject [(''a'', VInt 1)]) [] = Inr (VObject [(''a'', VInt 1)], ''yes'')"
    by (rule render_if_open)
qed

lemma parse_step_yes:
  "parse_step example_env
     \<lparr>root = MultiPart [MultiPart [LogicPart [MultiPart []] [LogicQuery ''a'']]],
      current = [0, 0, 0], stack = [[0, 0], [0]], tpath = []\<rparr> (istream_of ''yes'') =
   Inr (\<lparr>root = MultiPart [MultiPart [LogicPart [MultiPart [StringPart ''yes'']] [LogicQuery ''a'']]],
         current = [0, 0, 0], stack = [[0, 0], [0]], tpath = []\<rparr>, None)"
  by code_simp

theorem unterminated_blocks_accepted_witness:
  "\<not> good \<lparr>buf = [], eofbit = True, failbit = False\<rparr>
   \<and> parse_loop example_env
        \<lparr>root = MultiPart [MultiPart [LogicPart [MultiPart []] [LogicQuery ''a'']]],
         current = [0, 0, 0], stack = [[0, 0], [0]], tpath = []\<rparr>
        \<lparr>buf = [], eofbit = True, failbit = False\<rparr> =
       Inr \<lparr>root = MultiPart [MultiPart [LogicPart [MultiPart []] [LogicQuery ''a'']]],
            current = [0, 0, 0], stack = [[0, 0], [0]], tpath = []\<rparr>
   \<and> good (istream_of ''yes'')
   \<and> parse_step example_env
        \<lparr>root = MultiPart [MultiPart [LogicPart [MultiPart []] [LogicQuery ''a'']]],
         current = [0, 0, 0], stack = [[0, 0], [0]], tpath = []\<rparr> (istream_of ''yes'') =
       Inr (\<lparr>root = MultiPart [MultiPart [LogicPart [MultiPart [StringPart ''yes'']] [LogicQuery ''a'']]],
             current = [0, 0, 0], stack = [[0, 0], [0]], tpath = []\<rparr>, None)
   \<and> parse_loop example_env
        \<lparr>root = MultiPart [MultiPart [LogicPart [MultiPart []] [LogicQuery ''a'']]],
         current = [0, 0, 0], stack = [[0, 0], [0]], tpath = []\<rparr> (istream_of ''yes'') =
       Inr \<lparr>root = MultiPart [MultiPart [LogicPart [MultiPart [StringPart ''yes'']] [LogicQuery ''a'']]],
            current = [0, 0, 0], stack = [[0, 0], [0]], tpath = []\<rparr>
   \<and> \<not> has_opener (buf (istream_of ''yes''))
   \<and> (\<exists>st'. parse_loop example_env
               \<lparr>root = MultiPart [MultiPart [LogicPart [MultiPart []] [LogicQuery ''a'']]],
                current = [0, 0, 0], stack = [[0, 0], [0]], tpath = []\<rparr> (istream_of ''yes'') = Inr st'
          \<and> stack st' = [[0, 0], [0]]
          \<and> root st' =
              MultiPart [MultiPart [LogicPart [MultiPart [StringPart ''yes'']] [LogicQuery ''a'']]])"
proof -
  let ?st = "\<lparr>root = MultiPart [MultiPart [LogicPart [MultiPart []] [LogicQuery ''a'']]],
              current = [0, 0, 0], stack = [[0, 0], [0]], tpath = []\<rparr>"
  let ?st1 = "\<lparr>root = MultiPart [MultiPart [LogicPart [MultiPart [StringPart ''yes'']] [LogicQuery ''a'']]],
               current = [0, 0, 0], stack = [[0, 0], [0]], tpath = []\<rparr>"
  have h0: "\<not> good \<lparr>buf = [], eofbit = True, failbit = False\<rparr>" by (simp add: good_def)
  have h1: "good (istream_of ''yes'')" by (simp add: good_def istream_of_def)
  have h2: "\<not> has_opener (buf (istream_of ''yes''))" by (simp add: istream_of_def)
  have a: "parse_loop example_env ?st \<lparr>buf = [], eofbit = True, failbit = False\<rparr> = Inr ?st"
    using unterminated_blocks_accepted[where s = "\<lparr>buf = [], eofbit = True, failbit = False\<rparr>"
        and e = example_env and st = ?st] h0 by blast
  have b: "parse_loop example_env ?st (istream_of ''yes'') = Inr ?st1"
    using unterminated_blocks_accepted[where s = "istream_of ''yes''" and e = example_env
        and st = ?st and ?st1.0 = ?st1] h1 parse_step_yes by blast
  from a b h0 h1 h2 parse_step_yes show ?thesis by simp
qed

text \<open>The parser never frees a tree: the number of trees under \<open>root\<close> does not go down.\<close>

lemma parts_of_set_parts:
  "i < length (parts_of r) \<Longrightarrow> parts_of (set_parts ps r) = ps"
  by (cases r) simp_all

lemma width_addPart: "length (parts_of r) \<le> length (parts_of (addPart p r))"
  by (cases r) simp_all

lemma width_addPart_query: "length (parts_of r) \<le> length (parts_of (addPart_query q p r))"
  by (cases r) simp_all

lemma width_update_at:
  assumes "\<And>x. length (parts_of x) \<le> length (parts_of (f x))"
  shows "length (parts_of r) \<le> length (parts_of (update_at f r ptr))"
proof (cases ptr)
  case Nil
  with assms show ?thesis by simp
next
  case (Cons i ptr')
  then show ?thesis by (simp add: parts_of_set_parts)
qed

lemma width_current_addPart:
  "length (parts_of (root st)) \<le> length (parts_of (root (current_addPart p st)))"
  by (simp add: current_addPart_def width_update_at width_addPart)

lemma width_directive:
  assumes "directive e command st s = Inr (st', s')"
  shows "length (parts_of (root st)) \<le> length (parts_of (root st'))"
proof -
  have a: "\<And>p r ptr. length (parts_of r) \<le> length (parts_of (update_at (addPart p) r ptr))"
    by (rule width_update_at) (rule width_addPart)
  have b: "\<And>q p r ptr. length (parts_of r) \<le> length (parts_of (update_at (addPart_query q p) r ptr))"
    by (rule width_update_at) (rule width_addPart_query)
  have c: "\<And>q p p' r ptr ptr'. length (parts_of r)
             \<le> length (parts_of (update_at (addPart_query q p) (update_at (addPart p') r ptr) ptr'))"
    using a b le_trans by blast
  show ?thesis
  proof (cases "command = ''echo''")
    case True
    with assms show ?thesis
      by (auto simp: directive_def width_current_addPart split: prod.splits if_splits)
  next
    case n1: False
    show ?thesis
    proof (cases "command = ''for''")
      case True
      with assms show ?thesis
        by (auto simp: directive_def Let_def a split: prod.splits if_splits)
    next
      case n2: False
      show ?thesis
      proof (cases "command = ''else''")
        case True
        with assms show ?thesis
          by (auto simp: directive_def a split: list.splits if_splits)
      next
        case n3: False
        show ?thesis
        proof (cases "command = ''elsif'' \<or> command = ''elif''")
          case True
          with n1 n2 n3 assms show ?thesis
            by (auto simp: directive_def b split: prod.splits list.splits if_splits)
        next
          case n4: False
          show ?thesis
          proof (cases "command = ''endfor'' \<or> command = ''endif''")
            case True
            with n1 n2 n3 n4 assms show ?thesis
              by (auto simp: directive_def split: if_splits)
          next
            case n5: False
            show ?thesis
            proof (cases "command = ''if'' \<or> command = ''ifexist''")
              case True
              with n1 n2 n3 n4 n5 assms show ?thesis
                by (auto simp: directive_def Let_def c split: prod.splits if_splits)
            next
              case n6: False
              show ?thesis
              proof (cases "command = ''include''")
                case True
                with n1 n2 n3 n4 n5 n6 assms show ?thesis
                  by (auto simp: directive_def Let_def width_current_addPart
                           split: prod.splits if_splits)
              next
                case False
                with n1 n2 n3 n4 n5 n6 assms show ?thesis by (simp add: directive_def)
              qed
            qed
          qed
        qed
      qed
    qed
  qed
qed

lemma width_parse_step:
  assumes "parse_step e st s = Inr (st', r)"
  shows "length (parts_of (root st)) \<le> length (parts_of (root st'))"
proof -
  obtain t s1 where rt: "readText s = (t, s1)" by (cases "readText s")
  obtain command s2 where rc: "readTemplateCommand s1 = (command, s2)"
    by (cases "readTemplateCommand s1")
  define st1 where "st1 = (if length t > 0 then current_addPart (StringPart t) st else st)"
  have w1: "length (parts_of (root st)) \<le> length (parts_of (root st1))"
    by (simp add: st1_def width_current_addPart)
  show ?thesis
  proof (cases "command = []")
    case True
    with assms rt rc have "st' = st1" by (simp add: parse_step_def st1_def)
    with w1 show ?thesis by simp
  next
    case False
    with assms rt rc obtain s3 where
      "directive e command st1 (readWhiteSpace s2) = Inr (st', s3)"
      by (auto simp: parse_step_def Let_def st1_def split: if_splits sum.splits)
    from width_directive[OF this] w1 show ?thesis by simp
  qed
qed

lemma width_parse_loop:
  "parse_loop e st s = Inr st' \<Longrightarrow> length (parts_of (root st)) \<le> length (parts_of (root st'))"
proof (induction e st s rule: parse_loop.induct)
  case (1 e st s)
  show ?case
  proof (cases "good s")
    case False
    with "1.prems" show ?thesis by (simp add: parse_loop.simps[of e st s])
  next
    case True
    from "1.prems" True obtain st1 r where ps: "parse_step e st s = Inr (st1, r)"
      by (auto simp: parse_loop.simps[of e st s] split: sum.splits)
    have w: "length (parts_of (root st)) \<le> length (parts_of (root st1))"
      using ps by (rule width_parse_step)
    show ?thesis
    proof (cases r)
      case None
      with ps True "1.prems" have "st' = st1" by (simp add: parse_loop.simps[of e st s])
      with w show ?thesis by simp
    next
      case (Some s1)
      have pl: "parse_loop e st1 s1 = Inr st'"
        using ps Some True "1.prems" by (simp add: parse_loop.simps[of e st s])
      from "1.IH"[OF True ps[unfolded Some] refl refl pl] w show ?thesis by simp
    qed
  qed
qed

lemma Template_parse_stream_parts:
  assumes "Template_parse_stream e t s = Inr t'"
  shows "parts t' \<noteq> None"
proof -
  let ?k = "length (allocated t)"
  let ?st = "\<lparr>root = MultiPart (allocated t @ [MultiPart []]), current = [?k],
              stack = partStack t, tpath = templatePath t\<rparr>"
  from assms obtain st where pl: "parse_loop e ?st s = Inr st"
    and t': "parts t' = node_at (root st) [?k]"
    by (auto simp: Template_parse_stream_def Let_def split: sum.splits)
  from width_parse_loop[OF pl] have "?k < length (parts_of (root st))" by simp
  with t' show ?thesis by simp
qed


text \<open>
  C10. Render requires a completed parse. \<open>Template::render\<close> dereferences \<open>_parts\<close>
  without a test. The pointer is null in a freshly constructed template and stays null
  when \<open>parse()\<close> finds no file at the template's path, so rendering such a template is
  the dereference of a null pointer, not an exception of the engine and not an empty
  output. A parse of a stream that returns leaves the pointer set.
\<close>

theorem render_requires_parse:
  "Template_render e depth Template_default data out = Inl NullDereference
   \<and> Template_render e depth (Template_path p) data out = Inl NullDereference
   \<and> (fileContents e (templatePath t) = None \<longrightarrow> Template_parse e t = Inr t)
   \<and> (parts t = None \<longrightarrow> Template_render e depth t data out = Inl NullDereference)
   \<and> (Template_render e depth t data out \<noteq> Inl NullDereference \<longrightarrow> parts t \<noteq> None)
   \<and> (\<forall>t'. Template_parse_stream e t s = Inr t' \<longrightarrow> parts t' \<noteq> None)"
proof -
  have a: "Template_render e depth Template_default data out = Inl NullDereference"
    by (simp add: Template_render_def Template_default_def)
  have b: "Template_render e depth (Template_path p) data out = Inl NullDereference"
    by (simp add: Template_render_def Template_path_def)
  have c: "fileContents e (templatePath t) = None \<longrightarrow> Template_parse e t = Inr t"
    by (simp add: Template_parse_def)
  have d: "parts t = None \<longrightarrow> Template_render e depth t data out = Inl NullDereference"
    by (simp add: Template_render_def)
  have f: "\<forall>t'. Template_parse_stream e t s = Inr t' \<longrightarrow> parts t' \<noteq> None"
    using Template_parse_stream_parts by blast
  from a b c d f show ?thesis by blast
qed

lemma parse_x:
  "Template_parse_stream example_env Template_default (istream_of ''x'') =
     Inr \<lparr>parts = Some (MultiPart [StringPart ''x'']), currentPart = Some [0],
          partStack = [], templatePath = [], leaked = []\<rparr>"
  "Template_render example_env 0
     \<lparr>parts = Some (MultiPart [StringPart ''x'']), currentPart = Some [0],
      partStack = [], templatePath = [], leaked = []\<rparr> (VObject []) [] = Inr (VObject [], ''x'')"
  by code_simp+

theorem render_requires_parse_witness:
  "fileContents example_env (templatePath (Template_path ''missing.tpl'')) = None
   \<and> parts (Template_path ''missing.tpl'') = None
   \<and> Template_parse example_env (Template_path ''missing.tpl'') = Inr (Template_path ''missing.tpl'')
   \<and> Template_render example_env 0 (Template_path ''missing.tpl'') (VObject []) [] =
       Inl NullDereference
   \<and> Template_parse_stream example_env Template_default (istream_of ''x'') =
       Inr \<lparr>parts = Some (MultiPart [StringPart ''x'']), currentPart = Some [0],
            partStack = [], templatePath = [], leaked = []\<rparr>
   \<and> Template_render example_env 0
        \<lparr>parts = Some (MultiPart [StringPart ''x'']), currentPart = Some [0],
         partStack = [], templatePath = [], leaked = []\<rparr> (VObject []) [] \<noteq> Inl NullDereference
   \<and> parts \<lparr>parts = Some (MultiPart [StringPart ''x'']), currentPart = Some [0],
            partStack = [], templatePath = [], leaked = []\<rparr> \<noteq> None"
proof -
  let ?t = "\<lparr>parts = Some (MultiPart [StringPart ''x'']), currentPart = Some [0],
            partStack = [], templatePath = [], leaked = []\<rparr>"
  have h1: "fileContents example_env (templatePath (Template_path ''missing.tpl'')) = None"
    by (simp add: example_env_def)
  have h2: "parts (Template_path ''missing.tpl'') = None" by (simp add: Template_path_def)
  have h3: "Template_render example_env 0 ?t (VObject []) [] \<noteq> Inl NullDereference"
    by (simp add: parse_x(2))
  have a: "Template_parse example_env (Template_path ''missing.tpl'') = Inr (Template_path ''missing.tpl'')"
    and b: "Template_render example_env 0 (Template_path ''missing.tpl'') (VObject []) [] =
              Inl NullDereference"
    using render_requires_parse[where e = example_env and depth = 0 and data = "VObject []"
        and out = "[]" and t = "Template_path ''missing.tpl''"] h1 h2 by blast+
  have c: "parts ?t \<noteq> None"
    using render_requires_parse[where e = example_env and depth = 0 and data = "VObject []"
        and out = "[]" and t = ?t] h3 by blast
  from h1 h2 h3 a b c parse_x(1) show ?thesis by blast
qed


section \<open>The closer of a directive\<close>

text \<open>At most one leading carriage return, and at most one leading line feed.\<close>

definition strip_cr :: "string \<Rightarrow> string" where
  "strip_cr cs = (case cs of [] \<Rightarrow> [] | c # cs' \<Rightarrow> if c = CHR 0x0D then cs' else cs)"

definition strip_lf :: "string \<Rightarrow> string" where
  "strip_lf cs = (case cs of [] \<Rightarrow> [] | c # cs' \<Rightarrow> if c = CHR 0x0A then cs' else cs)"

text \<open>A stream that is not in good state has no input left.\<close>

definition drained :: "istream \<Rightarrow> bool" where
  "drained s = (good s \<or> buf s = [])"

lemma skip_char:
  assumes "drained s" and "peek s = (p, s1)"
  shows "drained (if p = Some ch then snd (get s1) else s1)
       \<and> buf (if p = Some ch then snd (get s1) else s1) =
           (case buf s of [] \<Rightarrow> [] | c # cs \<Rightarrow> if c = ch then cs else buf s)"
  using assms
  by (auto simp: drained_def peek_def get_def good_def split: if_splits list.splits)

lemma closer_buf:
  "map_sum id buf (closer command s) =
     (if good s \<and> take 2 (dropWhile isSpace (buf s)) = ''?>''
      then Inr (if command = ''echo'' then drop 2 (dropWhile isSpace (buf s))
                else strip_lf (strip_cr (drop 2 (dropWhile isSpace (buf s)))))
      else Inl (JSONTemplateException ''Missing ?>''))"
proof (cases "good s")
  case False
  then have "closer command s = Inl (JSONTemplateException ''Missing ?>'')"
    by (simp add: closer_def readWhiteSpace_not_good get_def good_def)
  with False show ?thesis by simp
next
  case True
  define w where "w = dropWhile isSpace (buf s)"
  have ws: "readWhiteSpace s = (if w = [] then s\<lparr>buf := [], eofbit := True\<rparr> else s\<lparr>buf := w\<rparr>)"
    using readWhiteSpace_good[OF True] by (simp add: w_def)
  show ?thesis
  proof (cases "take 2 w = ''?>''")
    case False
    have "closer command s = Inl (JSONTemplateException ''Missing ?>'')"
    proof (cases w)
      case Nil
      with ws show ?thesis by (simp add: closer_def get_def good_def)
    next
      case (Cons c w')
      show ?thesis
      proof (cases w')
        case Nil
        with Cons ws True show ?thesis
          by (simp add: closer_def get_def peek_def good_def)
      next
        case (Cons d w'')
        with \<open>w = c # w'\<close> False have "\<not> (c = CHR ''?'' \<and> d = CHR ''>'')" by simp
        with Cons \<open>w = c # w'\<close> ws True show ?thesis
          by (auto simp: closer_def get_def peek_def good_def)
      qed
    qed
    with False True show ?thesis by (simp add: w_def)
  next
    case ok: True
    then obtain rest where w: "w = CHR ''?'' # CHR ''>'' # rest"
      by (cases w; cases "tl w") auto
    let ?s3 = "s\<lparr>buf := rest\<rparr>"
    have s3: "good ?s3" "drained ?s3" using True by (simp_all add: good_def drained_def)
    show ?thesis
    proof (cases "command = ''echo''")
      case echo: True
      have "closer command s = Inr ?s3"
        using ws w True echo by (simp add: closer_def get_def peek_def good_def)
      with ok True w echo show ?thesis by (simp add: w_def[symmetric])
    next
      case False
      obtain p1 s4 where p1: "peek ?s3 = (p1, s4)" by (cases "peek ?s3")
      let ?s4 = "if p1 = Some (CHR 0x0D) then snd (get s4) else s4"
      obtain p2 s5 where p2: "peek ?s4 = (p2, s5)" by (cases "peek ?s4")
      let ?s5 = "if p2 = Some (CHR 0x0A) then snd (get s5) else s5"
      have a: "drained ?s4 \<and> buf ?s4 = strip_cr rest"
        using skip_char[OF s3(2) p1, of "CHR 0x0D"] by (simp add: strip_cr_def split: list.splits)
      have b: "buf ?s5 = strip_lf (buf ?s4)"
        using skip_char[OF conjunct1[OF a] p2, of "CHR 0x0A"] by (simp add: strip_lf_def split: list.splits)
      have "closer command s = Inr ?s5"
        using ws w True False p1 p2 by (simp add: closer_def get_def[of "s\<lparr>buf := CHR ''?'' # CHR ''>'' # rest\<rparr>"] get_def[of "s\<lparr>buf := CHR ''>'' # rest\<rparr>"] peek_def[of "s\<lparr>buf := CHR ''>'' # rest\<rparr>"] good_def)
      with ok True w False a b show ?thesis by (simp add: w_def[symmetric])
    qed
  qed
qed


text \<open>The command of the next directive in the input, the input behind it, and the parser
  state once the text before the directive has been added.\<close>

definition next_command :: "istream \<Rightarrow> string" where
  "next_command s = fst (readTemplateCommand (snd (readText s)))"

definition directive_input :: "istream \<Rightarrow> istream" where
  "directive_input s = readWhiteSpace (snd (readTemplateCommand (snd (readText s))))"

definition text_added :: "istream \<Rightarrow> parser \<Rightarrow> parser" where
  "text_added s st =
     (if length (fst (readText s)) > 0 then current_addPart (StringPart (fst (readText s))) st
      else st)"

lemma parse_step_unfold:
  "parse_step e st s =
     (if next_command s = [] then Inr (text_added s st, None)
      else (case directive e (next_command s) (text_added s st) (directive_input s) of
              Inl ex \<Rightarrow> Inl ex
            | Inr (st2, s3) \<Rightarrow>
                (case closer (next_command s) s3 of
                   Inl ex \<Rightarrow> Inl ex
                 | Inr s4 \<Rightarrow> Inr (st2, Some s4))))"
proof -
  obtain t s1 where rt: "readText s = (t, s1)" by (cases "readText s")
  obtain command s2 where rc: "readTemplateCommand s1 = (command, s2)"
    by (cases "readTemplateCommand s1")
  have nc: "next_command s = command" using rt rc by (simp add: next_command_def)
  have di: "directive_input s = readWhiteSpace s2" using rt rc by (simp add: directive_input_def)
  have ta: "text_added s st = (if length t > 0 then current_addPart (StringPart t) st else st)"
    using rt by (simp add: text_added_def)
  show ?thesis
    unfolding nc di ta using rt rc by (simp add: parse_step_def)
qed

lemma closer_fails:
  assumes "\<not> (good s \<and> take 2 (dropWhile isSpace (buf s)) = ''?>'')"
  shows "closer command s = Inl (JSONTemplateException ''Missing ?>'')"
proof -
  from closer_buf[of command s] assms
  have "map_sum id buf (closer command s) = Inl (JSONTemplateException ''Missing ?>'')"
    by (simp split: if_splits)
  then show ?thesis by (cases "closer command s") simp_all
qed

lemma closer_succeeds:
  assumes "good s \<and> take 2 (dropWhile isSpace (buf s)) = ''?>''"
  shows "\<exists>s'. closer command s = Inr s'
           \<and> buf s' = (if command = ''echo'' then drop 2 (dropWhile isSpace (buf s))
                        else strip_lf (strip_cr (drop 2 (dropWhile isSpace (buf s)))))"
proof -
  from closer_buf[of command s] assms
  have "map_sum id buf (closer command s) =
          Inr (if command = ''echo'' then drop 2 (dropWhile isSpace (buf s))
               else strip_lf (strip_cr (drop 2 (dropWhile isSpace (buf s)))))"
    by simp
  then show ?thesis by (cases "closer command s") auto
qed

lemma closer_examples:
  "compile example_env (''<? if a ?>'' @ [CHR 0x0D, CHR 0x0A, CHR 0x0D, CHR 0x0A] @ ''X<? endif ?>'' @ [CHR 0x0A] @ ''Y'') =
     Inr \<lparr>parts = Some (MultiPart [LogicPart [MultiPart [StringPart ([CHR 0x0D, CHR 0x0A] @ ''X'')]]
                                              [LogicQuery ''a''],
                                    StringPart ''Y'']),
          currentPart = Some [0], partStack = [], templatePath = [], leaked = []\<rparr>"
  "compile example_env (''<?= a ?>'' @ [CHR 0x0D, CHR 0x0A] @ ''X'') =
     Inr \<lparr>parts = Some (MultiPart [EchoPart ''a'', StringPart ([CHR 0x0D, CHR 0x0A] @ ''X'')]),
          currentPart = Some [0], partStack = [], templatePath = [], leaked = []\<rparr>"
  "compile example_env (''<? if a ?>'' @ [CHR 0x0A, CHR 0x0D] @ ''X<? endif ?>'') =
     Inr \<lparr>parts = Some (MultiPart [LogicPart [MultiPart [StringPart ([CHR 0x0D] @ ''X'')]]
                                              [LogicQuery ''a'']]),
          currentPart = Some [0], partStack = [], templatePath = [], leaked = []\<rparr>"
  "compile example_env ''<? if a ? >X'' = Inl (JSONTemplateException ''Missing ?>'')"
  "compile example_env ''<?= a'' = Inl (JSONTemplateException ''Missing ?>'')"
  by code_simp+

lemma closer_drained:
  assumes "closer command s = Inr s'"
  shows "drained s'"
proof -
  define w where "w = dropWhile isSpace (buf s)"
  have ok: "good s \<and> take 2 w = ''?>''"
  proof (rule ccontr)
    assume "\<not> (good s \<and> take 2 w = ''?>'')"
    then have "closer command s = Inl (JSONTemplateException ''Missing ?>'')"
      unfolding w_def by (rule closer_fails)
    with assms show False by simp
  qed
  then have g: "good s" by simp
  have ws: "readWhiteSpace s = (if w = [] then s\<lparr>buf := [], eofbit := True\<rparr> else s\<lparr>buf := w\<rparr>)"
    using readWhiteSpace_good[OF g] by (simp add: w_def)
  from ok obtain rest where w: "w = CHR ''?'' # CHR ''>'' # rest"
    by (cases w; cases "tl w") auto
  let ?s3 = "s\<lparr>buf := rest\<rparr>"
  have s3: "good ?s3" "drained ?s3" using g by (simp_all add: good_def drained_def)
  show ?thesis
  proof (cases "command = ''echo''")
    case True
    have "closer command s = Inr ?s3"
      using ws w g True by (simp add: closer_def get_def peek_def good_def)
    with assms s3(2) show ?thesis by simp
  next
    case False
    obtain p1 s4 where p1: "peek ?s3 = (p1, s4)" by (cases "peek ?s3")
    let ?s4 = "if p1 = Some (CHR 0x0D) then snd (get s4) else s4"
    obtain p2 s5 where p2: "peek ?s4 = (p2, s5)" by (cases "peek ?s4")
    let ?s5 = "if p2 = Some (CHR 0x0A) then snd (get s5) else s5"
    have a: "drained ?s4"
      using skip_char[OF s3(2) p1, of "CHR 0x0D"] by simp
    have b: "drained ?s5"
      using skip_char[OF a p2, of "CHR 0x0A"] by simp
    have "closer command s = Inr ?s5"
      using ws w g False p1 p2 by (simp add: closer_def get_def[of "s\<lparr>buf := CHR ''?'' # CHR ''>'' # rest\<rparr>"] get_def[of "s\<lparr>buf := CHR ''>'' # rest\<rparr>"] peek_def[of "s\<lparr>buf := CHR ''>'' # rest\<rparr>"] good_def)
    with assms b show ?thesis by simp
  qed
qed

text \<open>
  A stream in good state is its input, and the loop reads a stream that is not in good
  state and has no input left as it reads the empty input.
\<close>

lemma good_istream_of: "good s \<Longrightarrow> s = istream_of (buf s)"
  by (simp add: good_def istream_of_def)

lemma parse_loop_drained:
  assumes "drained s"
  shows "parse_loop e st s = parse_loop e st (istream_of (buf s))"
proof (cases "good s")
  case True
  then show ?thesis using good_istream_of[of s] by simp
next
  case False
  with assms have b: "buf s = []" by (simp add: drained_def)
  have "parse_loop e st s = Inr st" using False by (subst parse_loop.simps) simp
  moreover have "parse_loop e st (istream_of []) = Inr st"
    using parse_loop_text_only[of "istream_of []" e st]
    by (simp add: good_def istream_of_def)
  ultimately show ?thesis using b by simp
qed

text \<open>
  The turns of the \<open>while (in.good())\<close> loop: the members and the stream at the start of
  each turn the loop of \<open>parse\<close> begins, in order.
\<close>

function turns :: "env \<Rightarrow> parser \<Rightarrow> istream \<Rightarrow> (parser \<times> istream) list" where
  "turns e st s =
     (if good s
      then (st, s) # (case parse_step e st s of
                        Inr (st', Some s') \<Rightarrow> turns e st' s'
                      | _ \<Rightarrow> [])
      else [])"
  by pat_completeness auto
termination
  by (relation "measure (\<lambda>(e, st, s). length (buf s))") (auto dest: parse_step_buf_less)

declare turns.simps [simp del]

lemma turns_parse_loop:
  "(sti, si) \<in> set (turns e st s) \<Longrightarrow> good si \<and> parse_loop e st s = parse_loop e sti si"
proof (induction e st s rule: parse_loop.induct)
  case (1 e st s)
  show ?case
  proof (cases "good s")
    case False
    then have "turns e st s = []" by (subst turns.simps) simp
    with "1.prems" show ?thesis by simp
  next
    case True
    show ?thesis
    proof (cases "parse_step e st s")
      case (Inl ex)
      with True have "turns e st s = [(st, s)]" by (subst turns.simps) simp
      with "1.prems" True show ?thesis by simp
    next
      case (Inr x)
      obtain st1 r where x: "x = (st1, r)" by (cases x)
      show ?thesis
      proof (cases r)
        case None
        with True Inr x have "turns e st s = [(st, s)]" by (subst turns.simps) simp
        with "1.prems" True show ?thesis by simp
      next
        case (Some s1)
        have ps: "parse_step e st s = Inr (st1, Some s1)" using Inr x Some by simp
        have t: "turns e st s = (st, s) # turns e st1 s1"
          using True ps by (subst turns.simps) simp
        have pl: "parse_loop e st s = parse_loop e st1 s1"
          using True ps by (subst parse_loop.simps) simp
        show ?thesis
        proof (cases "(sti, si) = (st, s)")
          case True
          with \<open>good s\<close> show ?thesis by simp
        next
          case False
          with "1.prems" t have "(sti, si) \<in> set (turns e st1 s1)" by auto
          from "1.IH"[OF True ps refl refl this] pl show ?thesis by simp
        qed
      qed
    qed
  qed
qed

lemma parse_loop_turn:
  assumes "good s" and "next_command s \<noteq> []"
    and "directive e (next_command s) (text_added s st) (directive_input s) = Inr (st2, s3)"
    and "good s3 \<and> take 2 (dropWhile isSpace (buf s3)) = ''?>''"
  shows "parse_loop e st s =
           parse_loop e st2
             (istream_of (if next_command s = ''echo'' then drop 2 (dropWhile isSpace (buf s3))
                          else strip_lf (strip_cr (drop 2 (dropWhile isSpace (buf s3))))))"
proof -
  from closer_succeeds[OF assms(4), of "next_command s"] obtain s4 where
    s4: "closer (next_command s) s3 = Inr s4"
    "buf s4 = (if next_command s = ''echo'' then drop 2 (dropWhile isSpace (buf s3))
               else strip_lf (strip_cr (drop 2 (dropWhile isSpace (buf s3)))))"
    by blast
  have d: "drained s4" using s4(1) by (rule closer_drained)
  have "parse_step e st s = Inr (st2, Some s4)"
    using assms(2,3) s4(1) by (simp add: parse_step_unfold)
  with assms(1) have "parse_loop e st s = parse_loop e st2 s4"
    by (subst parse_loop.simps) simp
  also have "\<dots> = parse_loop e st2 (istream_of (buf s4))" using d by (rule parse_loop_drained)
  finally show ?thesis unfolding s4(2) .
qed

lemma parse_loop_unclosed:
  assumes "good s" and "next_command s \<noteq> []"
    and "directive e (next_command s) (text_added s st) (directive_input s) = Inr (st2, s3)"
    and "\<not> (good s3 \<and> take 2 (dropWhile isSpace (buf s3)) = ''?>'')"
  shows "parse_loop e st s = Inl (JSONTemplateException ''Missing ?>'')"
proof -
  have "closer (next_command s) s3 = Inl (JSONTemplateException ''Missing ?>'')"
    using assms(4) by (rule closer_fails)
  with assms(2,3) have "parse_step e st s = Inl (JSONTemplateException ''Missing ?>'')"
    by (simp add: parse_step_unfold)
  with assms(1) show ?thesis by (subst parse_loop.simps) simp
qed

lemma parse_loop_directive_throws:
  assumes "good s" and "next_command s \<noteq> []"
    and "directive e (next_command s) (text_added s st) (directive_input s) = Inl ex"
  shows "parse_loop e st s = Inl ex"
proof -
  from assms(2,3) have "parse_step e st s = Inl ex" by (simp add: parse_step_unfold)
  with assms(1) show ?thesis by (subst parse_loop.simps) simp
qed

lemma turns_closed:
  assumes "parse_loop e st s = Inr st'" and "(sti, si) \<in> set (turns e st s)"
    and "next_command si \<noteq> []"
  shows "\<exists>st2 s3. directive e (next_command si) (text_added si sti) (directive_input si) =
                     Inr (st2, s3)
               \<and> good s3 \<and> take 2 (dropWhile isSpace (buf s3)) = ''?>''"
proof -
  from turns_parse_loop[OF assms(2)] assms(1)
  have g: "good si" and pl: "parse_loop e sti si = Inr st'" by simp_all
  show ?thesis
  proof (cases "directive e (next_command si) (text_added si sti) (directive_input si)")
    case (Inl ex)
    from parse_loop_directive_throws[OF g assms(3) Inl] pl show ?thesis by simp
  next
    case (Inr x)
    obtain st2 s3 where x: "x = (st2, s3)" by (cases x)
    show ?thesis
    proof (cases "good s3 \<and> take 2 (dropWhile isSpace (buf s3)) = ''?>''")
      case True
      with Inr x show ?thesis by blast
    next
      case False
      from parse_loop_unclosed[OF g assms(3) Inr[unfolded x] False] pl show ?thesis by simp
    qed
  qed
qed

lemma closer_render_examples:
  "Template_render example_env 0
     \<lparr>parts = Some (MultiPart [LogicPart [MultiPart [StringPart ([CHR 0x0D, CHR 0x0A] @ ''X'')]]
                                         [LogicQuery ''a''],
                               StringPart ''Y'']),
      currentPart = Some [0], partStack = [], templatePath = [], leaked = []\<rparr>
     (VObject [(''a'', VInt 1)]) [] =
   Inr (VObject [(''a'', VInt 1)], [CHR 0x0D, CHR 0x0A] @ ''XY'')"
  "Template_render example_env 0
     \<lparr>parts = Some (MultiPart [EchoPart ''a'', StringPart ([CHR 0x0D, CHR 0x0A] @ ''X'')]),
      currentPart = Some [0], partStack = [], templatePath = [], leaked = []\<rparr>
     (VObject [(''a'', VString ''v'')]) [] =
   Inr (VObject [(''a'', VString ''v'')], ''v'' @ [CHR 0x0D, CHR 0x0A] @ ''X'')"
  by code_simp+

text \<open>
  C7. Directive closer and newline swallowing. Behind the arguments of a directive and
  optional whitespace the two characters \<open>?>\<close> must follow; otherwise the exception
  \<open>Missing ?>\<close> is thrown and the parse fails. Behind the closer of a command other than
  \<open>echo\<close> at most one carriage return and then at most one line feed are consumed; behind
  the closer of \<open>echo\<close> nothing is consumed. A directive is an opener followed by a
  command: either its branch throws, or its arguments are read and the closer is not
  there, and the parse fails both times; or the closer is there and the turn of the loop
  ends behind it and the swallowed line end. The loop then goes on exactly as the parse of
  what is left behind the closer and the swallowed line end: the characters swallowed
  reach neither the tree nor the output, and what is left is one \<open>StringPart\<close> when it
  holds no further directive. This holds in every turn of the loop, so for every directive
  the parse comes to, not only the first: a parse that returns has found the closer
  behind each of them.
\<close>

theorem directive_closer:
  "map_sum id buf (closer command s) =
     (if good s \<and> take 2 (dropWhile isSpace (buf s)) = ''?>''
      then Inr (if command = ''echo'' then drop 2 (dropWhile isSpace (buf s))
                else strip_lf (strip_cr (drop 2 (dropWhile isSpace (buf s)))))
      else Inl (JSONTemplateException ''Missing ?>''))
   \<and> (good s \<and> next_command s \<noteq> []
        \<and> directive e (next_command s) (text_added s st) (directive_input s) = Inl ex \<longrightarrow>
        parse_loop e st s = Inl ex)
   \<and> (good s \<and> next_command s \<noteq> []
        \<and> directive e (next_command s) (text_added s st) (directive_input s) = Inr (st2, s3)
        \<and> \<not> (good s3 \<and> take 2 (dropWhile isSpace (buf s3)) = ''?>'') \<longrightarrow>
        parse_loop e st s = Inl (JSONTemplateException ''Missing ?>''))
   \<and> (next_command s \<noteq> []
        \<and> directive e (next_command s) (text_added s st) (directive_input s) = Inr (st2, s3)
        \<and> good s3 \<and> take 2 (dropWhile isSpace (buf s3)) = ''?>'' \<longrightarrow>
        (\<exists>s4. parse_step e st s = Inr (st2, Some s4)
           \<and> buf s4 = (if next_command s = ''echo'' then drop 2 (dropWhile isSpace (buf s3))
                        else strip_lf (strip_cr (drop 2 (dropWhile isSpace (buf s3)))))))
   \<and> (good s \<and> next_command s \<noteq> []
        \<and> directive e (next_command s) (text_added s st) (directive_input s) = Inr (st2, s3)
        \<and> good s3 \<and> take 2 (dropWhile isSpace (buf s3)) = ''?>'' \<longrightarrow>
        parse_loop e st s =
          parse_loop e st2
            (istream_of (if next_command s = ''echo'' then drop 2 (dropWhile isSpace (buf s3))
                         else strip_lf (strip_cr (drop 2 (dropWhile isSpace (buf s3)))))))
   \<and> (good s \<and> next_command s \<noteq> [] \<and> next_command s \<noteq> ''echo''
        \<and> directive e (next_command s) (text_added s st) (directive_input s) = Inr (st2, s3)
        \<and> good s3 \<and> take 2 (dropWhile isSpace (buf s3)) = ''?>''
        \<and> \<not> has_opener (strip_lf (strip_cr (drop 2 (dropWhile isSpace (buf s3))))) \<longrightarrow>
        parse_loop e st s =
          Inr (if strip_lf (strip_cr (drop 2 (dropWhile isSpace (buf s3)))) = [] then st2
               else current_addPart
                      (StringPart (strip_lf (strip_cr (drop 2 (dropWhile isSpace (buf s3)))))) st2))
   \<and> (good s \<and> next_command s = ''echo''
        \<and> directive e (next_command s) (text_added s st) (directive_input s) = Inr (st2, s3)
        \<and> good s3 \<and> take 2 (dropWhile isSpace (buf s3)) = ''?>''
        \<and> \<not> has_opener (drop 2 (dropWhile isSpace (buf s3))) \<longrightarrow>
        parse_loop e st s =
          Inr (if drop 2 (dropWhile isSpace (buf s3)) = [] then st2
               else current_addPart (StringPart (drop 2 (dropWhile isSpace (buf s3)))) st2))
   \<and> (\<forall>(sti, si)\<in>set (turns e st s). good si \<and> parse_loop e st s = parse_loop e sti si)
   \<and> (\<forall>(sti, si)\<in>set (turns e st s). \<forall>sta sa.
          next_command si \<noteq> []
          \<and> directive e (next_command si) (text_added si sti) (directive_input si) = Inr (sta, sa)
          \<and> \<not> (good sa \<and> take 2 (dropWhile isSpace (buf sa)) = ''?>'') \<longrightarrow>
          parse_loop e st s = Inl (JSONTemplateException ''Missing ?>''))
   \<and> (\<forall>st'. parse_loop e st s = Inr st' \<longrightarrow>
          (\<forall>(sti, si)\<in>set (turns e st s). next_command si \<noteq> [] \<longrightarrow>
             (\<exists>sta sa. directive e (next_command si) (text_added si sti) (directive_input si) =
                          Inr (sta, sa)
                    \<and> good sa \<and> take 2 (dropWhile isSpace (buf sa)) = ''?>'')))"
proof -
  let ?kept = "strip_lf (strip_cr (drop 2 (dropWhile isSpace (buf s3))))"
  let ?rest = "drop 2 (dropWhile isSpace (buf s3))"
  let ?d = "directive e (next_command s) (text_added s st) (directive_input s)"
  let ?closed = "good s3 \<and> take 2 (dropWhile isSpace (buf s3)) = ''?>''"
  have c1: "map_sum id buf (closer command s) =
     (if good s \<and> take 2 (dropWhile isSpace (buf s)) = ''?>''
      then Inr (if command = ''echo'' then drop 2 (dropWhile isSpace (buf s))
                else strip_lf (strip_cr (drop 2 (dropWhile isSpace (buf s)))))
      else Inl (JSONTemplateException ''Missing ?>''))"
    by (rule closer_buf)
  have c2: "good s \<and> next_command s \<noteq> [] \<and> ?d = Inl ex \<longrightarrow> parse_loop e st s = Inl ex"
    using parse_loop_directive_throws by blast
  have c3: "good s \<and> next_command s \<noteq> [] \<and> ?d = Inr (st2, s3) \<and> \<not> ?closed \<longrightarrow>
              parse_loop e st s = Inl (JSONTemplateException ''Missing ?>'')"
    using parse_loop_unclosed by blast
  have c4: "next_command s \<noteq> [] \<and> ?d = Inr (st2, s3)
              \<and> good s3 \<and> take 2 (dropWhile isSpace (buf s3)) = ''?>'' \<longrightarrow>
        (\<exists>s4. parse_step e st s = Inr (st2, Some s4)
           \<and> buf s4 = (if next_command s = ''echo'' then ?rest else ?kept))"
  proof
    assume h: "next_command s \<noteq> [] \<and> ?d = Inr (st2, s3)
                 \<and> good s3 \<and> take 2 (dropWhile isSpace (buf s3)) = ''?>''"
    then obtain s4 where s4: "closer (next_command s) s3 = Inr s4"
      "buf s4 = (if next_command s = ''echo'' then ?rest else ?kept)"
      using closer_succeeds[of s3 "next_command s"] by blast
    with h have "parse_step e st s = Inr (st2, Some s4)" by (simp add: parse_step_unfold)
    with s4(2) show "\<exists>s4. parse_step e st s = Inr (st2, Some s4)
           \<and> buf s4 = (if next_command s = ''echo'' then ?rest else ?kept)"
      by blast
  qed
  have c5: "good s \<and> next_command s \<noteq> [] \<and> ?d = Inr (st2, s3)
              \<and> good s3 \<and> take 2 (dropWhile isSpace (buf s3)) = ''?>'' \<longrightarrow>
        parse_loop e st s =
          parse_loop e st2 (istream_of (if next_command s = ''echo'' then ?rest else ?kept))"
    using parse_loop_turn[of s e st st2 s3] by blast
  have text_only: "\<And>src. \<not> has_opener src \<Longrightarrow>
      parse_loop e st2 (istream_of src) =
        Inr (if src = [] then st2 else current_addPart (StringPart src) st2)"
  proof -
    fix src
    assume "\<not> has_opener src"
    then show "parse_loop e st2 (istream_of src) =
        Inr (if src = [] then st2 else current_addPart (StringPart src) st2)"
      using parse_loop_text_only[of "istream_of src" e st2]
      by (simp add: good_def istream_of_def)
  qed
  have c6: "good s \<and> next_command s \<noteq> [] \<and> next_command s \<noteq> ''echo'' \<and> ?d = Inr (st2, s3)
              \<and> good s3 \<and> take 2 (dropWhile isSpace (buf s3)) = ''?>''
              \<and> \<not> has_opener ?kept \<longrightarrow>
        parse_loop e st s =
          Inr (if ?kept = [] then st2 else current_addPart (StringPart ?kept) st2)"
  proof
    assume h: "good s \<and> next_command s \<noteq> [] \<and> next_command s \<noteq> ''echo'' \<and> ?d = Inr (st2, s3)
              \<and> good s3 \<and> take 2 (dropWhile isSpace (buf s3)) = ''?>''
              \<and> \<not> has_opener ?kept"
    then have "parse_loop e st s = parse_loop e st2 (istream_of ?kept)"
      using parse_loop_turn[of s e st st2 s3] by simp
    with h text_only[of ?kept] show "parse_loop e st s =
          Inr (if ?kept = [] then st2 else current_addPart (StringPart ?kept) st2)"
      by simp
  qed
  have c7: "good s \<and> next_command s = ''echo'' \<and> ?d = Inr (st2, s3)
              \<and> good s3 \<and> take 2 (dropWhile isSpace (buf s3)) = ''?>''
              \<and> \<not> has_opener ?rest \<longrightarrow>
        parse_loop e st s =
          Inr (if ?rest = [] then st2 else current_addPart (StringPart ?rest) st2)"
  proof
    assume h: "good s \<and> next_command s = ''echo'' \<and> ?d = Inr (st2, s3)
              \<and> good s3 \<and> take 2 (dropWhile isSpace (buf s3)) = ''?>''
              \<and> \<not> has_opener ?rest"
    then have ne: "next_command s \<noteq> []" and ec: "next_command s = ''echo''" by auto
    from h have g: "good s" and d: "?d = Inr (st2, s3)"
      and c: "good s3 \<and> take 2 (dropWhile isSpace (buf s3)) = ''?>''" by blast+
    have "parse_loop e st s = parse_loop e st2 (istream_of ?rest)"
      using parse_loop_turn[OF g ne d c] ec by simp
    with h text_only[of ?rest] show "parse_loop e st s =
          Inr (if ?rest = [] then st2 else current_addPart (StringPart ?rest) st2)"
      by simp
  qed
  have c8: "\<forall>(sti, si)\<in>set (turns e st s). good si \<and> parse_loop e st s = parse_loop e sti si"
    using turns_parse_loop by blast
  have c9: "\<forall>(sti, si)\<in>set (turns e st s). \<forall>sta sa.
          next_command si \<noteq> []
          \<and> directive e (next_command si) (text_added si sti) (directive_input si) = Inr (sta, sa)
          \<and> \<not> (good sa \<and> take 2 (dropWhile isSpace (buf sa)) = ''?>'') \<longrightarrow>
          parse_loop e st s = Inl (JSONTemplateException ''Missing ?>'')"
  proof (intro ballI, clarify)
    fix sti si sta sa
    assume m: "(sti, si) \<in> set (turns e st s)" and n: "next_command si \<noteq> []"
      and d: "directive e (next_command si) (text_added si sti) (directive_input si) = Inr (sta, sa)"
      and c: "\<not> (good sa \<and> take 2 (dropWhile isSpace (buf sa)) = ''?>'')"
    from turns_parse_loop[OF m] have g: "good si" and pl: "parse_loop e st s = parse_loop e sti si"
      by simp_all
    from parse_loop_unclosed[OF g n d c] pl
    show "parse_loop e st s = Inl (JSONTemplateException ''Missing ?>'')" by simp
  qed
  have c10: "\<forall>st'. parse_loop e st s = Inr st' \<longrightarrow>
          (\<forall>(sti, si)\<in>set (turns e st s). next_command si \<noteq> [] \<longrightarrow>
             (\<exists>sta sa. directive e (next_command si) (text_added si sti) (directive_input si) =
                          Inr (sta, sa)
                    \<and> good sa \<and> take 2 (dropWhile isSpace (buf sa)) = ''?>''))"
    using turns_closed by blast
  from c1 c2 c3 c4 c5 c6 c7 c8 c9 c10 show ?thesis by (intro conjI)
qed

lemma directive_unclosed:
  "next_command (istream_of ''<?= a'') = ''echo''
   \<and> directive example_env (next_command (istream_of ''<?= a''))
        (text_added (istream_of ''<?= a'')
           \<lparr>root = MultiPart [MultiPart []], current = [0], stack = [], tpath = []\<rparr>)
        (directive_input (istream_of ''<?= a'')) =
       Inr (\<lparr>root = MultiPart [MultiPart [EchoPart ''a'']], current = [0], stack = [], tpath = []\<rparr>,
            \<lparr>buf = [], eofbit = True, failbit = True\<rparr>)"
  by code_simp

lemma directive_instances:
  "next_command (istream_of ''<? echo'') = ''echo''"
  "directive example_env (next_command (istream_of ''<? echo''))
     (text_added (istream_of ''<? echo'')
        \<lparr>root = MultiPart [MultiPart []], current = [0], stack = [], tpath = []\<rparr>)
     (directive_input (istream_of ''<? echo'')) =
   Inl (JSONTemplateException ''Missing query in <? echo ?>'')"
  "next_command (istream_of (''<? if a ?>'' @ [CHR 0x0D, CHR 0x0A] @ ''X'')) = ''if''"
  "directive example_env (next_command (istream_of (''<? if a ?>'' @ [CHR 0x0D, CHR 0x0A] @ ''X'')))
     (text_added (istream_of (''<? if a ?>'' @ [CHR 0x0D, CHR 0x0A] @ ''X''))
        \<lparr>root = MultiPart [MultiPart []], current = [0], stack = [], tpath = []\<rparr>)
     (directive_input (istream_of (''<? if a ?>'' @ [CHR 0x0D, CHR 0x0A] @ ''X''))) =
   Inr (\<lparr>root = MultiPart [MultiPart [LogicPart [MultiPart []] [LogicQuery ''a'']]],
         current = [0, 0, 0], stack = [[0, 0], [0]], tpath = []\<rparr>,
        \<lparr>buf = ''?>'' @ [CHR 0x0D, CHR 0x0A] @ ''X'', eofbit = False, failbit = False\<rparr>)"
  by code_simp+

lemma later_directive_instances:
  "turns example_env \<lparr>root = MultiPart [MultiPart []], current = [0], stack = [], tpath = []\<rparr>
     (istream_of ''<?= a ?><?= b'') =
   [(\<lparr>root = MultiPart [MultiPart []], current = [0], stack = [], tpath = []\<rparr>,
     istream_of ''<?= a ?><?= b''),
    (\<lparr>root = MultiPart [MultiPart [EchoPart ''a'']], current = [0], stack = [], tpath = []\<rparr>,
     istream_of ''<?= b'')]"
  "next_command (istream_of ''<?= b'') = ''echo''"
  "directive example_env (next_command (istream_of ''<?= b''))
     (text_added (istream_of ''<?= b'')
        \<lparr>root = MultiPart [MultiPart [EchoPart ''a'']], current = [0], stack = [], tpath = []\<rparr>)
     (directive_input (istream_of ''<?= b'')) =
   Inr (\<lparr>root = MultiPart [MultiPart [EchoPart ''a'', EchoPart ''b'']], current = [0],
          stack = [], tpath = []\<rparr>,
        \<lparr>buf = [], eofbit = True, failbit = True\<rparr>)"
  "next_command (istream_of (''<?= a ?>'' @ [CHR 0x0D, CHR 0x0A] @ ''X'')) = ''echo''"
  "directive example_env (next_command (istream_of (''<?= a ?>'' @ [CHR 0x0D, CHR 0x0A] @ ''X'')))
     (text_added (istream_of (''<?= a ?>'' @ [CHR 0x0D, CHR 0x0A] @ ''X''))
        \<lparr>root = MultiPart [MultiPart []], current = [0], stack = [], tpath = []\<rparr>)
     (directive_input (istream_of (''<?= a ?>'' @ [CHR 0x0D, CHR 0x0A] @ ''X''))) =
   Inr (\<lparr>root = MultiPart [MultiPart [EchoPart ''a'']], current = [0], stack = [], tpath = []\<rparr>,
        \<lparr>buf = ''?>'' @ [CHR 0x0D, CHR 0x0A] @ ''X'', eofbit = False, failbit = False\<rparr>)"
  by code_simp+

theorem directive_closer_witness:
  "map_sum id buf (closer ''endif''
       (istream_of ('' ?>'' @ [CHR 0x0D, CHR 0x0A, CHR 0x0D, CHR 0x0A] @ ''X''))) =
     Inr ([CHR 0x0D, CHR 0x0A] @ ''X'')
   \<and> map_sum id buf (closer ''echo'' (istream_of ('' ?>'' @ [CHR 0x0D, CHR 0x0A] @ ''X''))) =
       Inr ([CHR 0x0D, CHR 0x0A] @ ''X'')
   \<and> map_sum id buf (closer ''if'' (istream_of ''? >'')) = Inl (JSONTemplateException ''Missing ?>'')
   \<and> good (istream_of ''<? echo'')
   \<and> next_command (istream_of ''<? echo'') \<noteq> []
   \<and> directive example_env (next_command (istream_of ''<? echo''))
        (text_added (istream_of ''<? echo'')
           \<lparr>root = MultiPart [MultiPart []], current = [0], stack = [], tpath = []\<rparr>)
        (directive_input (istream_of ''<? echo'')) =
       Inl (JSONTemplateException ''Missing query in <? echo ?>'')
   \<and> parse_loop example_env \<lparr>root = MultiPart [MultiPart []], current = [0], stack = [], tpath = []\<rparr>
        (istream_of ''<? echo'') = Inl (JSONTemplateException ''Missing query in <? echo ?>'')
   \<and> good (istream_of ''<?= a'')
   \<and> next_command (istream_of ''<?= a'') \<noteq> []
   \<and> directive example_env (next_command (istream_of ''<?= a''))
        (text_added (istream_of ''<?= a'')
           \<lparr>root = MultiPart [MultiPart []], current = [0], stack = [], tpath = []\<rparr>)
        (directive_input (istream_of ''<?= a'')) =
       Inr (\<lparr>root = MultiPart [MultiPart [EchoPart ''a'']], current = [0], stack = [], tpath = []\<rparr>,
            \<lparr>buf = [], eofbit = True, failbit = True\<rparr>)
   \<and> \<not> good \<lparr>buf = [], eofbit = True, failbit = True\<rparr>
   \<and> parse_loop example_env \<lparr>root = MultiPart [MultiPart []], current = [0], stack = [], tpath = []\<rparr>
        (istream_of ''<?= a'') = Inl (JSONTemplateException ''Missing ?>'')
   \<and> next_command (istream_of (''<? if a ?>'' @ [CHR 0x0D, CHR 0x0A] @ ''X'')) \<noteq> []
   \<and> good \<lparr>buf = ''?>'' @ [CHR 0x0D, CHR 0x0A] @ ''X'', eofbit = False, failbit = False\<rparr>
   \<and> (\<exists>s4. parse_step example_env \<lparr>root = MultiPart [MultiPart []], current = [0], stack = [], tpath = []\<rparr>
               (istream_of (''<? if a ?>'' @ [CHR 0x0D, CHR 0x0A] @ ''X'')) =
              Inr (\<lparr>root = MultiPart [MultiPart [LogicPart [MultiPart []] [LogicQuery ''a'']]],
                    current = [0, 0, 0], stack = [[0, 0], [0]], tpath = []\<rparr>, Some s4)
          \<and> buf s4 = ''X'')
   \<and> \<not> has_opener ''X''
   \<and> parse_loop example_env \<lparr>root = MultiPart [MultiPart []], current = [0], stack = [], tpath = []\<rparr>
        (istream_of (''<? if a ?>'' @ [CHR 0x0D, CHR 0x0A] @ ''X'')) =
       Inr \<lparr>root = MultiPart [MultiPart [LogicPart [MultiPart [StringPart ''X'']] [LogicQuery ''a'']]],
            current = [0, 0, 0], stack = [[0, 0], [0]], tpath = []\<rparr>
   \<and> \<not> has_opener ([CHR 0x0D, CHR 0x0A] @ ''X'')
   \<and> parse_loop example_env \<lparr>root = MultiPart [MultiPart []], current = [0], stack = [], tpath = []\<rparr>
        (istream_of (''<?= a ?>'' @ [CHR 0x0D, CHR 0x0A] @ ''X'')) =
       Inr \<lparr>root = MultiPart [MultiPart [EchoPart ''a'', StringPart ([CHR 0x0D, CHR 0x0A] @ ''X'')]],
            current = [0], stack = [], tpath = []\<rparr>
   \<and> (\<lparr>root = MultiPart [MultiPart [EchoPart ''a'']], current = [0], stack = [], tpath = []\<rparr>,
       istream_of ''<?= b'')
       \<in> set (turns example_env
                 \<lparr>root = MultiPart [MultiPart []], current = [0], stack = [], tpath = []\<rparr>
                 (istream_of ''<?= a ?><?= b''))
   \<and> next_command (istream_of ''<?= b'') \<noteq> []
   \<and> directive example_env (next_command (istream_of ''<?= b''))
        (text_added (istream_of ''<?= b'')
           \<lparr>root = MultiPart [MultiPart [EchoPart ''a'']], current = [0], stack = [], tpath = []\<rparr>)
        (directive_input (istream_of ''<?= b'')) =
       Inr (\<lparr>root = MultiPart [MultiPart [EchoPart ''a'', EchoPart ''b'']], current = [0],
              stack = [], tpath = []\<rparr>,
            \<lparr>buf = [], eofbit = True, failbit = True\<rparr>)
   \<and> parse_loop example_env \<lparr>root = MultiPart [MultiPart []], current = [0], stack = [], tpath = []\<rparr>
        (istream_of ''<?= a ?><?= b'') = Inl (JSONTemplateException ''Missing ?>'')"
proof -
  let ?st = "\<lparr>root = MultiPart [MultiPart []], current = [0], stack = [], tpath = []\<rparr>"
  let ?s = "istream_of ''<?= a''"
  let ?u = "istream_of ''<? echo''"
  let ?v = "istream_of (''<? if a ?>'' @ [CHR 0x0D, CHR 0x0A] @ ''X'')"
  let ?v3 = "\<lparr>buf = ''?>'' @ [CHR 0x0D, CHR 0x0A] @ ''X'', eofbit = False, failbit = False\<rparr>"
  let ?w = "istream_of (''<?= a ?>'' @ [CHR 0x0D, CHR 0x0A] @ ''X'')"
  let ?ab = "istream_of ''<?= a ?><?= b''"
  let ?b = "istream_of ''<?= b''"
  let ?sta = "\<lparr>root = MultiPart [MultiPart [EchoPart ''a'']], current = [0], stack = [], tpath = []\<rparr>"
  let ?stab = "\<lparr>root = MultiPart [MultiPart [EchoPart ''a'', EchoPart ''b'']], current = [0],
                stack = [], tpath = []\<rparr>"
  let ?stif = "\<lparr>root = MultiPart [MultiPart [LogicPart [MultiPart []] [LogicQuery ''a'']]],
                current = [0, 0, 0], stack = [[0, 0], [0]], tpath = []\<rparr>"
  let ?end = "\<lparr>buf = [], eofbit = True, failbit = True\<rparr>"
  have g: "\<And>src. good (istream_of src)" by (simp add: good_def istream_of_def)
  have ng: "\<not> good ?end" by (simp add: good_def)
  have g3: "good ?v3" by (simp add: good_def)
  have isp: "isSpace CHR '' ''" "\<not> isSpace CHR ''?''" by (simp_all add: isSpace_def)
  have a: "map_sum id buf (closer ''endif''
       (istream_of ('' ?>'' @ [CHR 0x0D, CHR 0x0A, CHR 0x0D, CHR 0x0A] @ ''X''))) =
     Inr ([CHR 0x0D, CHR 0x0A] @ ''X'')"
    using directive_closer[where command = "''endif''"
        and s = "istream_of ('' ?>'' @ [CHR 0x0D, CHR 0x0A, CHR 0x0D, CHR 0x0A] @ ''X'')",
        THEN conjunct1]
    by (simp add: istream_of_def good_def isp strip_cr_def strip_lf_def)
  have b: "map_sum id buf (closer ''echo'' (istream_of ('' ?>'' @ [CHR 0x0D, CHR 0x0A] @ ''X''))) =
     Inr ([CHR 0x0D, CHR 0x0A] @ ''X'')"
    using directive_closer[where command = "''echo''"
        and s = "istream_of ('' ?>'' @ [CHR 0x0D, CHR 0x0A] @ ''X'')", THEN conjunct1]
    by (simp add: istream_of_def good_def isp)
  have c: "map_sum id buf (closer ''if'' (istream_of ''? >'')) =
     Inl (JSONTemplateException ''Missing ?>'')"
    using directive_closer[where command = "''if''" and s = "istream_of ''? >''", THEN conjunct1]
    by (simp add: istream_of_def good_def isp)
  have n: "next_command ?s \<noteq> []" using conjunct1[OF directive_unclosed] by simp
  have d: "directive example_env (next_command ?s) (text_added ?s ?st) (directive_input ?s) =
       Inr (?sta, ?end)"
    by (rule conjunct2[OF directive_unclosed])
  have f: "parse_loop example_env ?st ?s = Inl (JSONTemplateException ''Missing ?>'')"
    using directive_closer[where s = ?s and e = example_env and st = ?st
        and ?st2.0 = ?sta and ?s3.0 = ?end, THEN conjunct2, THEN conjunct2, THEN conjunct1]
      g n d ng
    by blast
  have nu: "next_command ?u \<noteq> []" by (simp add: directive_instances(1))
  have fu: "parse_loop example_env ?st ?u = Inl (JSONTemplateException ''Missing query in <? echo ?>'')"
    using directive_closer[where s = ?u and e = example_env and st = ?st
        and ex = "JSONTemplateException ''Missing query in <? echo ?>''",
        THEN conjunct2, THEN conjunct1] g nu directive_instances(2)
    by blast
  have nv: "next_command ?v \<noteq> []" using directive_instances(3) by simp
  have t3: "take 2 (dropWhile isSpace (buf ?v3)) = ''?>''" by (simp add: isp)
  have r3: "strip_lf (strip_cr (drop 2 (dropWhile isSpace (buf ?v3)))) = ''X''"
    by (simp add: isp strip_cr_def strip_lf_def)
  have e3: "drop 2 (dropWhile isSpace (buf ?v3)) = [CHR 0x0D, CHR 0x0A] @ ''X''"
    by (simp add: isp)
  have ne: "next_command ?v \<noteq> ''echo''" using directive_instances(3) by simp
  note thv = directive_closer[where s = ?v and e = example_env and st = ?st
        and ?st2.0 = ?stif and ?s3.0 = ?v3]
  have k: "\<exists>s4. parse_step example_env ?st ?v = Inr (?stif, Some s4) \<and> buf s4 = ''X''"
    using thv[THEN conjunct2, THEN conjunct2, THEN conjunct2, THEN conjunct1]
      nv directive_instances(4) g3 t3 r3 ne
    by (simp only: if_False) blast
  have no: "\<not> has_opener ''X''" by simp
  have no': "\<not> has_opener (strip_lf (strip_cr (drop 2 (dropWhile isSpace (buf ?v3)))))"
    unfolding r3 by (rule no)
  have "parse_loop example_env ?st ?v =
          Inr (if strip_lf (strip_cr (drop 2 (dropWhile isSpace (buf ?v3)))) = [] then ?stif
               else current_addPart
                      (StringPart (strip_lf (strip_cr (drop 2 (dropWhile isSpace (buf ?v3))))))
                      ?stif)"
    using thv[THEN conjunct2, THEN conjunct2, THEN conjunct2, THEN conjunct2, THEN conjunct2,
              THEN conjunct1]
      g[of "''<? if a ?>'' @ [CHR 0x0D, CHR 0x0A] @ ''X''"] nv ne directive_instances(4) g3 t3 no'
    by blast
  then have m: "parse_loop example_env ?st ?v =
       Inr \<lparr>root = MultiPart [MultiPart [LogicPart [MultiPart [StringPart ''X'']] [LogicQuery ''a'']]],
            current = [0, 0, 0], stack = [[0, 0], [0]], tpath = []\<rparr>"
    unfolding r3 by (simp add: current_addPart_def)
  have nw: "\<not> has_opener ([CHR 0x0D, CHR 0x0A] @ ''X'')" by simp
  have nw': "\<not> has_opener (drop 2 (dropWhile isSpace (buf ?v3)))"
    unfolding e3 by (rule nw)
  have "parse_loop example_env ?st ?w =
          Inr (if drop 2 (dropWhile isSpace (buf ?v3)) = [] then ?sta
               else current_addPart (StringPart (drop 2 (dropWhile isSpace (buf ?v3)))) ?sta)"
    using directive_closer[where s = ?w and e = example_env and st = ?st
        and ?st2.0 = ?sta and ?s3.0 = ?v3,
        THEN conjunct2, THEN conjunct2, THEN conjunct2, THEN conjunct2, THEN conjunct2,
        THEN conjunct2, THEN conjunct1]
      g[of "''<?= a ?>'' @ [CHR 0x0D, CHR 0x0A] @ ''X''"] later_directive_instances(4,5) g3 t3 nw'
    by blast
  then have mw: "parse_loop example_env ?st ?w =
       Inr \<lparr>root = MultiPart [MultiPart [EchoPart ''a'', StringPart ([CHR 0x0D, CHR 0x0A] @ ''X'')]],
            current = [0], stack = [], tpath = []\<rparr>"
    unfolding e3 by (simp add: current_addPart_def)
  have mem: "(?sta, ?b) \<in> set (turns example_env ?st ?ab)"
    unfolding later_directive_instances(1) by simp
  have nb: "next_command ?b \<noteq> []" by (simp add: later_directive_instances(2))
  have db: "directive example_env (next_command ?b) (text_added ?b ?sta) (directive_input ?b) =
              Inr (?stab, ?end)"
    by (rule later_directive_instances(3))
  have nc: "\<not> (good ?end \<and> take 2 (dropWhile isSpace (buf ?end)) = ''?>'')"
    using ng by simp
  have "case (?sta, ?b) of (sti, si) \<Rightarrow> \<forall>sta sa.
          next_command si \<noteq> []
          \<and> directive example_env (next_command si) (text_added si sti) (directive_input si) =
              Inr (sta, sa)
          \<and> \<not> (good sa \<and> take 2 (dropWhile isSpace (buf sa)) = ''?>'') \<longrightarrow>
          parse_loop example_env ?st ?ab = Inl (JSONTemplateException ''Missing ?>'')"
    using directive_closer[where s = ?ab and e = example_env and st = ?st,
        THEN conjunct2, THEN conjunct2, THEN conjunct2, THEN conjunct2, THEN conjunct2,
        THEN conjunct2, THEN conjunct2, THEN conjunct2, THEN conjunct1] mem
    by (rule bspec)
  then have "next_command ?b \<noteq> []
          \<and> directive example_env (next_command ?b) (text_added ?b ?sta) (directive_input ?b) =
              Inr (?stab, ?end)
          \<and> \<not> (good ?end \<and> take 2 (dropWhile isSpace (buf ?end)) = ''?>'') \<longrightarrow>
          parse_loop example_env ?st ?ab = Inl (JSONTemplateException ''Missing ?>'')"
    unfolding prod.case by blast
  with nb db nc have fab: "parse_loop example_env ?st ?ab = Inl (JSONTemplateException ''Missing ?>'')"
    by blast
  from a b c g n d ng f nu fu nv g3 k directive_instances(2) no m nw mw mem nb db fab
  show ?thesis by blast
qed


section \<open>Block terminators and the nesting stack\<close>

text \<open>
  The exceptions of the four block-terminator branches that report a missing or wrong
  open block.
\<close>

definition mismatch_error :: "exn \<Rightarrow> bool" where
  "mismatch_error ex =
     (ex \<in> set [JSONTemplateException ''Unexpected <? else ?> found'',
                 JSONTemplateException ''Missing <? if ?> or <? ifexist ?> for <? else ?>'',
                 JSONTemplateException ''Unexpected <? elsif / elif ?> found'',
                 JSONTemplateException ''Missing <? if ?> or <? ifexist ?> for <? elsif / elif ?>'',
                 JSONTemplateException ''Unexpected <? endfor ?> found'',
                 JSONTemplateException ''Missing <? for ?> command'',
                 JSONTemplateException ''Unexpected <? endif ?> found'',
                 JSONTemplateException ''Missing <? if ?> or <? ifexist ?> for <? endif ?>''])"

text \<open>
  The innermost open block is a conditional, or a loop: the class of the node that
  \<open>_partStack.top()\<close> points to, in whichever tree of the template it lies.
\<close>

definition open_conditional :: "parser \<Rightarrow> bool" where
  "open_conditional st =
     (case stack st of [] \<Rightarrow> False | lp # below \<Rightarrow> is_LogicPart (node_at (root st) lp))"

definition open_loop :: "parser \<Rightarrow> bool" where
  "open_loop st =
     (case stack st of [] \<Rightarrow> False | lp # below \<Rightarrow> is_LoopPart (node_at (root st) lp))"

text \<open>The commands of the directives the loop of \<open>parse\<close> completes, in order.\<close>

function commands_run :: "env \<Rightarrow> parser \<Rightarrow> istream \<Rightarrow> string list" where
  "commands_run e st s =
     (if good s
      then (case parse_step e st s of
              Inr (st', Some s') \<Rightarrow>
                fst (readTemplateCommand (snd (readText s))) # commands_run e st' s'
            | _ \<Rightarrow> [])
      else [])"
  by pat_completeness auto
termination
  by (relation "measure (\<lambda>(e, st, s). length (buf s))") (auto dest: parse_step_buf_less)

declare commands_run.simps [simp del]

definition opened :: "string list \<Rightarrow> nat" where
  "opened cs = length (filter (\<lambda>c. c = ''if'' \<or> c = ''ifexist'' \<or> c = ''for'') cs)"

definition closed :: "string list \<Rightarrow> nat" where
  "closed cs = length (filter (\<lambda>c. c = ''endif'' \<or> c = ''endfor'') cs)"

lemma directive_else:
  "\<not> open_conditional st \<Longrightarrow>
   \<exists>ex. directive e ''else'' st s = Inl ex \<and> mismatch_error ex"
  by (auto simp: directive_def open_conditional_def mismatch_error_def split: list.splits)

lemma directive_elsif:
  "\<not> open_conditional st \<Longrightarrow> command = ''elsif'' \<or> command = ''elif'' \<Longrightarrow>
   fst (readQuery s) \<noteq> [] \<Longrightarrow>
   \<exists>ex. directive e command st s = Inl ex \<and> mismatch_error ex"
  by (auto simp: directive_def open_conditional_def mismatch_error_def
           split: list.splits prod.splits)

lemma directive_endif:
  "\<not> open_conditional st \<Longrightarrow>
   \<exists>ex. directive e ''endif'' st s = Inl ex \<and> mismatch_error ex"
  by (cases "stack st")
     (auto simp: directive_def open_conditional_def mismatch_error_def)

lemma directive_endfor:
  "\<not> open_loop st \<Longrightarrow>
   \<exists>ex. directive e ''endfor'' st s = Inl ex \<and> mismatch_error ex"
  by (cases "stack st")
     (auto simp: directive_def open_loop_def mismatch_error_def)


lemma current_addPart_stack: "stack (current_addPart p st) = stack st"
  by (simp add: current_addPart_def)

lemma opened_single:
  "opened [c] = (if c = ''if'' \<or> c = ''ifexist'' \<or> c = ''for'' then 1 else 0)"
  by (simp add: opened_def)

lemma closed_single: "closed [c] = (if c = ''endif'' \<or> c = ''endfor'' then 1 else 0)"
  by (simp add: closed_def)

lemma directive_stack_same:
  assumes "directive e command st s = Inr (st', s')"
    and "command = ''echo'' \<or> command = ''else'' \<or> command = ''elsif'' \<or> command = ''elif''
         \<or> command = ''include''"
  shows "stack st' = stack st"
proof -
  consider "command = ''echo''" | "command = ''else''" | "command = ''elsif''"
    | "command = ''elif''" | "command = ''include''"
    using assms(2) by auto
  then show ?thesis
  proof cases
    case 1
    with assms(1) show ?thesis
      by (auto simp: directive_def current_addPart_stack split: prod.splits if_splits)
  next
    case 2
    with assms(1) show ?thesis
      by (auto simp: directive_def split: list.splits if_splits)
  next
    case 3
    with assms(1) show ?thesis
      by (auto simp: directive_def split: prod.splits list.splits if_splits)
  next
    case 4
    with assms(1) show ?thesis
      by (auto simp: directive_def split: prod.splits list.splits if_splits)
  next
    case 5
    with assms(1) show ?thesis
      by (auto simp: directive_def Let_def current_addPart_stack split: prod.splits if_splits)
  qed
qed

lemma directive_stack_open:
  assumes "directive e command st s = Inr (st', s')"
    and "command = ''if'' \<or> command = ''ifexist'' \<or> command = ''for''"
  shows "\<exists>lp. stack st' = lp # current st # stack st"
proof -
  consider "command = ''if''" | "command = ''ifexist''" | "command = ''for''"
    using assms(2) by auto
  then show ?thesis
  proof cases
    case 1
    with assms(1) show ?thesis
      by (auto simp: directive_def Let_def split: prod.splits if_splits)
  next
    case 2
    with assms(1) show ?thesis
      by (auto simp: directive_def Let_def split: prod.splits if_splits)
  next
    case 3
    with assms(1) show ?thesis
      by (auto simp: directive_def Let_def split: prod.splits if_splits)
  qed
qed

lemma directive_stack_close:
  assumes "directive e command st s = Inr (st', s')"
    and "command = ''endif'' \<or> command = ''endfor''"
  shows "\<exists>lp. stack st = lp # current st' # stack st'"
proof -
  have two: "\<And>xs :: part_ptr list. \<not> length xs < 2 \<Longrightarrow> xs = hd xs # hd (tl xs) # tl (tl xs)"
  proof -
    fix xs :: "part_ptr list"
    assume "\<not> length xs < 2"
    then show "xs = hd xs # hd (tl xs) # tl (tl xs)" by (cases xs; cases "tl xs") auto
  qed
  consider "command = ''endif''" | "command = ''endfor''"
    using assms(2) by auto
  then show ?thesis
  proof cases
    case 1
    with assms(1) have "\<not> length (stack st) < 2" "current st' = hd (tl (stack st))"
        "stack st' = tl (tl (stack st))"
      by (auto simp: directive_def split: if_splits)
    with two[of "stack st"] show ?thesis by metis
  next
    case 2
    with assms(1) have "\<not> length (stack st) < 2" "current st' = hd (tl (stack st))"
        "stack st' = tl (tl (stack st))"
      by (auto simp: directive_def split: if_splits)
    with two[of "stack st"] show ?thesis by metis
  qed
qed

lemma directive_stack:
  assumes "directive e command st s = Inr (st', s')"
  shows "length (stack st') + 2 * closed [command] = length (stack st) + 2 * opened [command]"
proof (cases "command = ''echo'' \<or> command = ''else'' \<or> command = ''elsif'' \<or> command = ''elif''
         \<or> command = ''include''")
  case True
  from directive_stack_same[OF assms True] have "stack st' = stack st" .
  moreover from True have "opened [command] = 0" "closed [command] = 0"
    by (auto simp: opened_single closed_single)
  ultimately show ?thesis by simp
next
  case n1: False
  show ?thesis
  proof (cases "command = ''if'' \<or> command = ''ifexist'' \<or> command = ''for''")
    case True
    from directive_stack_open[OF assms True] have "length (stack st') = length (stack st) + 2"
      by auto
    moreover from True have "opened [command] = 1" "closed [command] = 0"
      by (auto simp: opened_single closed_single)
    ultimately show ?thesis by simp
  next
    case n2: False
    show ?thesis
    proof (cases "command = ''endif'' \<or> command = ''endfor''")
      case True
      from directive_stack_close[OF assms True] have "length (stack st) = length (stack st') + 2"
        by auto
      moreover from True have "opened [command] = 0" "closed [command] = 1"
        by (auto simp: opened_single closed_single)
      ultimately show ?thesis by simp
    next
      case False
      with n1 n2 have
        "directive e command st s = Inl (JSONTemplateException (''Unknown command '' @ command))"
        by (simp add: directive_def)
      with assms show ?thesis by simp
    qed
  qed
qed

lemma parse_step_stack:
  assumes "parse_step e st s = Inr (st', r)"
  shows "case r of
           None \<Rightarrow> stack st' = stack st
         | Some s' \<Rightarrow>
             length (stack st') + 2 * closed [fst (readTemplateCommand (snd (readText s)))] =
             length (stack st) + 2 * opened [fst (readTemplateCommand (snd (readText s)))]"
proof -
  obtain t s1 where rt: "readText s = (t, s1)" by (cases "readText s")
  obtain command s2 where rc: "readTemplateCommand s1 = (command, s2)"
    by (cases "readTemplateCommand s1")
  define st1 where "st1 = (if length t > 0 then current_addPart (StringPart t) st else st)"
  have st1: "stack st1 = stack st" by (simp add: st1_def current_addPart_stack)
  show ?thesis
  proof (cases r)
    case None
    with assms rt rc have "st' = st1"
      by (auto simp: parse_step_def Let_def st1_def split: if_splits sum.splits)
    with None st1 show ?thesis by simp
  next
    case (Some s')
    with assms rt rc obtain s3 where
      d: "directive e command st1 (readWhiteSpace s2) = Inr (st', s3)"
      by (auto simp: parse_step_def Let_def st1_def split: if_splits sum.splits)
    from directive_stack[OF d] st1 Some rt rc show ?thesis by simp
  qed
qed

lemma opened_Cons: "opened (c # cs) = opened [c] + opened cs"
  by (simp add: opened_def)

lemma closed_Cons: "closed (c # cs) = closed [c] + closed cs"
  by (simp add: closed_def)

lemma parse_loop_stack:
  "parse_loop e st s = Inr st' \<Longrightarrow>
   length (stack st') + 2 * closed (commands_run e st s) =
   length (stack st) + 2 * opened (commands_run e st s)"
proof (induction e st s rule: parse_loop.induct)
  case (1 e st s)
  show ?case
  proof (cases "good s")
    case False
    then have "commands_run e st s = []" by (subst commands_run.simps) simp
    moreover have "st' = st" using False "1.prems" by (simp add: parse_loop.simps[of e st s])
    ultimately show ?thesis by (simp add: opened_def closed_def)
  next
    case True
    from "1.prems" True obtain st1 r where ps: "parse_step e st s = Inr (st1, r)"
      by (auto simp: parse_loop.simps[of e st s] split: sum.splits)
    show ?thesis
    proof (cases r)
      case None
      with ps True "1.prems" have "st' = st1" by (simp add: parse_loop.simps[of e st s])
      moreover have "commands_run e st s = []"
        using ps None True by (subst commands_run.simps) simp
      ultimately show ?thesis
        using parse_step_stack[OF ps] None by (simp add: opened_def closed_def)
    next
      case (Some s1)
      let ?c = "fst (readTemplateCommand (snd (readText s)))"
      have pl: "parse_loop e st1 s1 = Inr st'"
        using ps Some True "1.prems" by (simp add: parse_loop.simps[of e st s])
      have ih: "length (stack st') + 2 * closed (commands_run e st1 s1) =
                length (stack st1) + 2 * opened (commands_run e st1 s1)"
        using "1.IH"[OF True ps[unfolded Some] refl refl pl] .
      have stp: "length (stack st1) + 2 * closed [?c] = length (stack st) + 2 * opened [?c]"
        using parse_step_stack[OF ps] Some by simp
      have cr: "commands_run e st s = ?c # commands_run e st1 s1"
        using ps Some True by (subst commands_run.simps) simp
      have "opened (?c # commands_run e st1 s1) = opened [?c] + opened (commands_run e st1 s1)"
        by (rule opened_Cons)
      moreover have "closed (?c # commands_run e st1 s1) = closed [?c] + closed (commands_run e st1 s1)"
        by (rule closed_Cons)
      ultimately show ?thesis
        unfolding cr using ih stp by linarith
    qed
  qed
qed


lemma kind_set_parts: "is_LogicPart (Some (set_parts ps r)) = is_LogicPart (Some r)"
  "is_LoopPart (Some (set_parts ps r)) = is_LoopPart (Some r)"
  by (cases r; simp)+

lemma kind_addPart: "is_LogicPart (Some (addPart p r)) = is_LogicPart (Some r)"
  "is_LoopPart (Some (addPart p r)) = is_LoopPart (Some r)"
  by (cases r; simp)+

lemma node_at_StringPart:
  "is_LogicPart (node_at (StringPart t) ptr) = False"
  "is_LoopPart (node_at (StringPart t) ptr) = False"
  by (cases ptr; simp)+

lemma node_at_addPart_StringPart:
  "is_LogicPart (node_at (addPart (StringPart t) r) ptr) = is_LogicPart (node_at r ptr)
   \<and> is_LoopPart (node_at (addPart (StringPart t) r) ptr) = is_LoopPart (node_at r ptr)"
proof (cases ptr)
  case Nil
  then show ?thesis by (simp add: kind_addPart)
next
  case (Cons i ptr')
  then show ?thesis
    by (cases r) (auto simp: nth_append node_at_StringPart less_Suc_eq)
qed

lemma node_at_update_StringPart:
  "is_LogicPart (node_at (update_at (addPart (StringPart t)) r cur) ptr) = is_LogicPart (node_at r ptr)
   \<and> is_LoopPart (node_at (update_at (addPart (StringPart t)) r cur) ptr) = is_LoopPart (node_at r ptr)"
proof (induction cur arbitrary: r ptr)
  case Nil
  show ?case using node_at_addPart_StringPart[of t r ptr] by simp
next
  case (Cons j cur)
  show ?case
  proof (cases "j < length (parts_of r)")
    case False
    then show ?thesis by simp
  next
    case True
    let ?ps = "(parts_of r)[j := update_at (addPart (StringPart t)) (parts_of r ! j) cur]"
    have u: "update_at (addPart (StringPart t)) r (j # cur) = set_parts ?ps r"
      using True by simp
    have po: "parts_of (set_parts ?ps r) = ?ps" using True by (rule parts_of_set_parts)
    show ?thesis
    proof (cases ptr)
      case Nil
      then show ?thesis unfolding u by (simp add: kind_set_parts)
    next
      case (Cons i ptr')
      show ?thesis
      proof (cases "i = j")
        case True
        with Cons \<open>j < length (parts_of r)\<close> po Cons.IH[of "parts_of r ! j" ptr'] show ?thesis
          unfolding u by simp
      next
        case False
        with Cons po show ?thesis unfolding u by simp
      qed
    qed
  qed
qed

lemma open_block_text:
  "open_conditional (current_addPart (StringPart t) st) = open_conditional st"
  "open_loop (current_addPart (StringPart t) st) = open_loop st"
  by (auto simp: open_conditional_def open_loop_def current_addPart_def node_at_update_StringPart
           split: list.splits)

lemma parse_loop_step_fails:
  "good s \<Longrightarrow> parse_step e st s = Inl ex \<Longrightarrow> parse_loop e st s = Inl ex"
  by (subst parse_loop.simps) simp

lemma parse_loop_mismatch:
  assumes "good s" and "next_command s = command" and "command \<noteq> []"
    and "\<And>st1. open_conditional st1 = open_conditional st \<Longrightarrow> open_loop st1 = open_loop st \<Longrightarrow>
           \<exists>ex. directive e command st1 (directive_input s) = Inl ex \<and> mismatch_error ex"
  shows "\<exists>ex. parse_loop e st s = Inl ex \<and> mismatch_error ex"
proof -
  obtain t s1 where rt: "readText s = (t, s1)" by (cases "readText s")
  obtain c s2 where rc: "readTemplateCommand s1 = (c, s2)"
    by (cases "readTemplateCommand s1")
  define st1 where "st1 = (if length t > 0 then current_addPart (StringPart t) st else st)"
  have k: "open_conditional st1 = open_conditional st" "open_loop st1 = open_loop st"
    by (simp_all add: st1_def open_block_text)
  have c: "c = command" "directive_input s = readWhiteSpace s2"
    using rt rc assms(2) by (simp_all add: next_command_def directive_input_def)
  from assms(4)[OF k] c obtain ex where
    ex: "directive e command st1 (readWhiteSpace s2) = Inl ex" "mismatch_error ex" by auto
  with rt rc assms(3) c have "parse_step e st s = Inl ex"
    by (simp add: parse_step_def st1_def)
  with assms(1) have "parse_loop e st s = Inl ex" by (rule parse_loop_step_fails)
  with ex(2) show ?thesis by blast
qed

lemma parse_loop_terminator:
  assumes "good s"
    and "((next_command s = ''else'' \<or> next_command s = ''endif'') \<and> \<not> open_conditional st)
       \<or> ((next_command s = ''elsif'' \<or> next_command s = ''elif'')
            \<and> fst (readQuery (directive_input s)) \<noteq> [] \<and> \<not> open_conditional st)
       \<or> (next_command s = ''endfor'' \<and> \<not> open_loop st)"
  shows "\<exists>ex. parse_loop e st s = Inl ex \<and> mismatch_error ex"
proof -
  consider (a) "next_command s = ''else''" "\<not> open_conditional st"
    | (b) "next_command s = ''endif''" "\<not> open_conditional st"
    | (c) "next_command s = ''elsif'' \<or> next_command s = ''elif''"
          "fst (readQuery (directive_input s)) \<noteq> []" "\<not> open_conditional st"
    | (d) "next_command s = ''endfor''" "\<not> open_loop st"
    using assms(2) by blast
  then show ?thesis
  proof cases
    case a
    show ?thesis
      by (rule parse_loop_mismatch[OF assms(1) a(1)]) (use a(2) in \<open>simp_all add: directive_else\<close>)
  next
    case b
    show ?thesis
      by (rule parse_loop_mismatch[OF assms(1) b(1)]) (use b(2) in \<open>simp_all add: directive_endif\<close>)
  next
    case c
    then have ne: "next_command s \<noteq> []" by auto
    show ?thesis
      by (rule parse_loop_mismatch[OF assms(1) refl ne]) (use c in \<open>simp add: directive_elsif\<close>)
  next
    case d
    show ?thesis
      by (rule parse_loop_mismatch[OF assms(1) d(1)]) (use d(2) in \<open>simp_all add: directive_endfor\<close>)
  qed
qed

text \<open>
  C6 (as amended). When the next directive of the input is \<open>else\<close>, \<open>endif\<close>, \<open>endfor\<close>,
  or an \<open>elsif\<close> or \<open>elif\<close> that carries a query, and the innermost open block on the
  nesting stack is missing or of the wrong kind, parsing fails with a mismatch error; this
  holds at the start of the parse and in every later turn of the loop. The nesting stack is
  the member \<open>_partStack\<close> as the parse finds it: what an earlier parse of the same template
  left on it counts, and its entries point into the tree of that earlier parse. A parse that
  returns has left two stack entries for every \<open>if\<close>, \<open>ifexist\<close> and \<open>for\<close> it completed
  and removed two for every \<open>endif\<close> and \<open>endfor\<close>: after a balanced parse the stack is as
  deep as before, and empty when it was empty.
\<close>

theorem block_terminator_matching:
  assumes "good s"
  shows "((next_command s = ''else'' \<or> next_command s = ''endif'') \<and> \<not> open_conditional st \<longrightarrow>
            (\<exists>ex. parse_loop e st s = Inl ex \<and> mismatch_error ex))
       \<and> ((next_command s = ''elsif'' \<or> next_command s = ''elif'')
            \<and> fst (readQuery (directive_input s)) \<noteq> [] \<and> \<not> open_conditional st \<longrightarrow>
            (\<exists>ex. parse_loop e st s = Inl ex \<and> mismatch_error ex))
       \<and> (next_command s = ''endfor'' \<and> \<not> open_loop st \<longrightarrow>
            (\<exists>ex. parse_loop e st s = Inl ex \<and> mismatch_error ex))
       \<and> (\<forall>st'. parse_loop e st s = Inr st'
              \<and> opened (commands_run e st s) = closed (commands_run e st s) \<longrightarrow>
              length (stack st') = length (stack st) \<and> (stack st = [] \<longrightarrow> stack st' = []))
       \<and> (\<forall>(sti, si)\<in>set (turns e st s).
              ((next_command si = ''else'' \<or> next_command si = ''endif'') \<and> \<not> open_conditional sti)
            \<or> ((next_command si = ''elsif'' \<or> next_command si = ''elif'')
                 \<and> fst (readQuery (directive_input si)) \<noteq> [] \<and> \<not> open_conditional sti)
            \<or> (next_command si = ''endfor'' \<and> \<not> open_loop sti) \<longrightarrow>
              (\<exists>ex. parse_loop e st s = Inl ex \<and> mismatch_error ex))"
proof -
  have c1: "(next_command s = ''else'' \<or> next_command s = ''endif'') \<and> \<not> open_conditional st \<longrightarrow>
            (\<exists>ex. parse_loop e st s = Inl ex \<and> mismatch_error ex)"
    using parse_loop_terminator[OF assms, of st e] by blast
  have c2: "(next_command s = ''elsif'' \<or> next_command s = ''elif'')
            \<and> fst (readQuery (directive_input s)) \<noteq> [] \<and> \<not> open_conditional st \<longrightarrow>
            (\<exists>ex. parse_loop e st s = Inl ex \<and> mismatch_error ex)"
    using parse_loop_terminator[OF assms, of st e] by blast
  have c3: "next_command s = ''endfor'' \<and> \<not> open_loop st \<longrightarrow>
            (\<exists>ex. parse_loop e st s = Inl ex \<and> mismatch_error ex)"
    using parse_loop_terminator[OF assms, of st e] by blast
  have c4: "\<forall>st'. parse_loop e st s = Inr st'
              \<and> opened (commands_run e st s) = closed (commands_run e st s) \<longrightarrow>
              length (stack st') = length (stack st) \<and> (stack st = [] \<longrightarrow> stack st' = [])"
  proof (intro allI impI)
    fix st'
    assume h: "parse_loop e st s = Inr st'
              \<and> opened (commands_run e st s) = closed (commands_run e st s)"
    then have "length (stack st') + 2 * closed (commands_run e st s) =
               length (stack st) + 2 * opened (commands_run e st s)"
      using parse_loop_stack by blast
    with h have "length (stack st') = length (stack st)" by simp
    then show "length (stack st') = length (stack st) \<and> (stack st = [] \<longrightarrow> stack st' = [])"
      by auto
  qed
  have c5: "\<forall>(sti, si)\<in>set (turns e st s).
              ((next_command si = ''else'' \<or> next_command si = ''endif'') \<and> \<not> open_conditional sti)
            \<or> ((next_command si = ''elsif'' \<or> next_command si = ''elif'')
                 \<and> fst (readQuery (directive_input si)) \<noteq> [] \<and> \<not> open_conditional sti)
            \<or> (next_command si = ''endfor'' \<and> \<not> open_loop sti) \<longrightarrow>
              (\<exists>ex. parse_loop e st s = Inl ex \<and> mismatch_error ex)"
  proof (intro ballI, clarify)
    fix sti si
    assume m: "(sti, si) \<in> set (turns e st s)"
      and h: "((next_command si = ''else'' \<or> next_command si = ''endif'') \<and> \<not> open_conditional sti)
            \<or> ((next_command si = ''elsif'' \<or> next_command si = ''elif'')
                 \<and> fst (readQuery (directive_input si)) \<noteq> [] \<and> \<not> open_conditional sti)
            \<or> (next_command si = ''endfor'' \<and> \<not> open_loop sti)"
    from turns_parse_loop[OF m] have g: "good si" and pl: "parse_loop e st s = parse_loop e sti si"
      by simp_all
    from parse_loop_terminator[OF g h, of e] pl
    show "\<exists>ex. parse_loop e st s = Inl ex \<and> mismatch_error ex" by simp
  qed
  from c1 c2 c3 c4 c5 show ?thesis by (intro conjI)
qed

lemma parse_endif_alone:
  "parse_loop example_env \<lparr>root = MultiPart [MultiPart []], current = [0], stack = [], tpath = []\<rparr>
     (istream_of ''<? endif ?>'') = Inl (JSONTemplateException ''Unexpected <? endif ?> found'')"
  by code_simp

lemma next_command_endif: "next_command (istream_of ''<? endif ?>'') = ''endif''"
  by code_simp

lemma terminator_instances:
  "next_command (istream_of ''<? elsif a ?>'') = ''elsif''"
  "fst (readQuery (directive_input (istream_of ''<? elsif a ?>''))) = ''a''"
  "next_command (istream_of ''<? endfor ?>'') = ''endfor''"
  "parse_loop example_env \<lparr>root = MultiPart [MultiPart []], current = [0], stack = [], tpath = []\<rparr>
     (istream_of ''<? if a ?>A<? endif ?>'') =
   Inr \<lparr>root = MultiPart [MultiPart [LogicPart [MultiPart [StringPart ''A'']] [LogicQuery ''a'']]],
        current = [0], stack = [], tpath = []\<rparr>"
  "commands_run example_env \<lparr>root = MultiPart [MultiPart []], current = [0], stack = [], tpath = []\<rparr>
     (istream_of ''<? if a ?>A<? endif ?>'') = [''if'', ''endif'']"
  by code_simp+

text \<open>
  A template parsed twice. The first parse, of \<open><? if a ?>x\<close>, leaves two entries on the
  stack. In the second parse an \<open>endif\<close> closes the block the first parse left open, and
  the text behind it goes to the tree of the first parse, which the template no longer
  renders; an \<open>endfor\<close> finds a conditional on top of the stack and fails.
\<close>

lemma second_parse_examples:
  "compile example_env ''<? if a ?>x'' =
     Inr \<lparr>parts = Some (MultiPart [LogicPart [MultiPart [StringPart ''x'']] [LogicQuery ''a'']]),
          currentPart = Some [0, 0, 0], partStack = [[0, 0], [0]], templatePath = [],
          leaked = []\<rparr>"
  "Template_parse_stream example_env
     \<lparr>parts = Some (MultiPart [LogicPart [MultiPart [StringPart ''x'']] [LogicQuery ''a'']]),
      currentPart = Some [0, 0, 0], partStack = [[0, 0], [0]], templatePath = [],
      leaked = []\<rparr>
     (istream_of ''y<? endif ?>z'') =
   Inr \<lparr>parts = Some (MultiPart [StringPart ''y'']), currentPart = Some [0],
        partStack = [], templatePath = [],
        leaked = [MultiPart [LogicPart [MultiPart [StringPart ''x'']] [LogicQuery ''a''],
                             StringPart ''z'']]\<rparr>"
  "Template_render example_env 0
     \<lparr>parts = Some (MultiPart [StringPart ''y'']), currentPart = Some [0],
      partStack = [], templatePath = [],
      leaked = [MultiPart [LogicPart [MultiPart [StringPart ''x'']] [LogicQuery ''a''],
                           StringPart ''z'']]\<rparr>
     (VObject [(''a'', VInt 1)]) [] = Inr (VObject [(''a'', VInt 1)], ''y'')"
  "Template_parse_stream example_env
     \<lparr>parts = Some (MultiPart [LogicPart [MultiPart [StringPart ''x'']] [LogicQuery ''a'']]),
      currentPart = Some [0, 0, 0], partStack = [[0, 0], [0]], templatePath = [],
      leaked = []\<rparr>
     (istream_of ''y<? endfor ?>z'') = Inl (JSONTemplateException ''Missing <? for ?> command'')"
  by code_simp+

lemma leftover_stack_instances:
  "next_command (istream_of ''y<? endfor ?>z'') = ''endfor''"
  "open_conditional
     \<lparr>root = MultiPart [MultiPart [LogicPart [MultiPart [StringPart ''x'']] [LogicQuery ''a'']],
                        MultiPart []],
      current = [1], stack = [[0, 0], [0]], tpath = []\<rparr>"
  "\<not> open_loop
     \<lparr>root = MultiPart [MultiPart [LogicPart [MultiPart [StringPart ''x'']] [LogicQuery ''a'']],
                        MultiPart []],
      current = [1], stack = [[0, 0], [0]], tpath = []\<rparr>"
  "parse_loop example_env
     \<lparr>root = MultiPart [MultiPart [LogicPart [MultiPart [StringPart ''x'']] [LogicQuery ''a'']],
                        MultiPart []],
      current = [1], stack = [[0, 0], [0]], tpath = []\<rparr>
     (istream_of ''y<? endfor ?>z'') = Inl (JSONTemplateException ''Missing <? for ?> command'')"
  "parse_loop example_env
     \<lparr>root = MultiPart [MultiPart [LogicPart [MultiPart [StringPart ''x'']] [LogicQuery ''a'']],
                        MultiPart []],
      current = [1], stack = [[0, 0], [0]], tpath = []\<rparr>
     (istream_of ''y<? endif ?>z'') =
   Inr \<lparr>root = MultiPart [MultiPart [LogicPart [MultiPart [StringPart ''x'']] [LogicQuery ''a''],
                                     StringPart ''z''],
                          MultiPart [StringPart ''y'']],
        current = [0], stack = [], tpath = []\<rparr>"
  "turns example_env \<lparr>root = MultiPart [MultiPart []], current = [0], stack = [], tpath = []\<rparr>
     (istream_of ''<? if a ?>A<? endfor ?>'') =
   [(\<lparr>root = MultiPart [MultiPart []], current = [0], stack = [], tpath = []\<rparr>,
     istream_of ''<? if a ?>A<? endfor ?>''),
    (\<lparr>root = MultiPart [MultiPart [LogicPart [MultiPart []] [LogicQuery ''a'']]],
       current = [0, 0, 0], stack = [[0, 0], [0]], tpath = []\<rparr>,
     istream_of ''A<? endfor ?>'')]"
  "next_command (istream_of ''A<? endfor ?>'') = ''endfor''"
  "\<not> open_loop \<lparr>root = MultiPart [MultiPart [LogicPart [MultiPart []] [LogicQuery ''a'']]],
                  current = [0, 0, 0], stack = [[0, 0], [0]], tpath = []\<rparr>"
  "parse_loop example_env \<lparr>root = MultiPart [MultiPart []], current = [0], stack = [], tpath = []\<rparr>
     (istream_of ''<? if a ?>A<? endfor ?>'') = Inl (JSONTemplateException ''Missing <? for ?> command'')"
  by code_simp+

theorem block_terminator_matching_witness:
  "good (istream_of ''<? endif ?>'')
   \<and> next_command (istream_of ''<? endif ?>'') = ''endif''
   \<and> \<not> open_conditional \<lparr>root = MultiPart [MultiPart []], current = [0], stack = [], tpath = []\<rparr>
   \<and> \<not> open_loop \<lparr>root = MultiPart [MultiPart []], current = [0], stack = [], tpath = []\<rparr>
   \<and> (\<exists>ex. parse_loop example_env \<lparr>root = MultiPart [MultiPart []], current = [0], stack = [], tpath = []\<rparr>
               (istream_of ''<? endif ?>'') = Inl ex \<and> mismatch_error ex)
   \<and> parse_loop example_env \<lparr>root = MultiPart [MultiPart []], current = [0], stack = [], tpath = []\<rparr>
        (istream_of ''<? endif ?>'') = Inl (JSONTemplateException ''Unexpected <? endif ?> found'')
   \<and> good (istream_of ''<? elsif a ?>'')
   \<and> next_command (istream_of ''<? elsif a ?>'') = ''elsif''
   \<and> fst (readQuery (directive_input (istream_of ''<? elsif a ?>''))) \<noteq> []
   \<and> (\<exists>ex. parse_loop example_env \<lparr>root = MultiPart [MultiPart []], current = [0], stack = [], tpath = []\<rparr>
               (istream_of ''<? elsif a ?>'') = Inl ex \<and> mismatch_error ex)
   \<and> good (istream_of ''<? endfor ?>'')
   \<and> next_command (istream_of ''<? endfor ?>'') = ''endfor''
   \<and> (\<exists>ex. parse_loop example_env \<lparr>root = MultiPart [MultiPart []], current = [0], stack = [], tpath = []\<rparr>
               (istream_of ''<? endfor ?>'') = Inl ex \<and> mismatch_error ex)
   \<and> good (istream_of ''<? if a ?>A<? endif ?>'')
   \<and> parse_loop example_env \<lparr>root = MultiPart [MultiPart []], current = [0], stack = [], tpath = []\<rparr>
        (istream_of ''<? if a ?>A<? endif ?>'') =
       Inr \<lparr>root = MultiPart [MultiPart [LogicPart [MultiPart [StringPart ''A'']] [LogicQuery ''a'']]],
            current = [0], stack = [], tpath = []\<rparr>
   \<and> opened (commands_run example_env
                 \<lparr>root = MultiPart [MultiPart []], current = [0], stack = [], tpath = []\<rparr>
                 (istream_of ''<? if a ?>A<? endif ?>'')) =
       closed (commands_run example_env
                 \<lparr>root = MultiPart [MultiPart []], current = [0], stack = [], tpath = []\<rparr>
                 (istream_of ''<? if a ?>A<? endif ?>''))
   \<and> stack \<lparr>root = MultiPart [MultiPart [LogicPart [MultiPart [StringPart ''A'']] [LogicQuery ''a'']]],
              current = [0], stack = [], tpath = []\<rparr> = []
   \<and> good (istream_of ''y<? endfor ?>z'')
   \<and> next_command (istream_of ''y<? endfor ?>z'') = ''endfor''
   \<and> open_conditional
        \<lparr>root = MultiPart [MultiPart [LogicPart [MultiPart [StringPart ''x'']] [LogicQuery ''a'']],
                           MultiPart []],
         current = [1], stack = [[0, 0], [0]], tpath = []\<rparr>
   \<and> \<not> open_loop
        \<lparr>root = MultiPart [MultiPart [LogicPart [MultiPart [StringPart ''x'']] [LogicQuery ''a'']],
                           MultiPart []],
         current = [1], stack = [[0, 0], [0]], tpath = []\<rparr>
   \<and> (\<exists>ex. parse_loop example_env
               \<lparr>root = MultiPart [MultiPart [LogicPart [MultiPart [StringPart ''x'']]
                                                        [LogicQuery ''a'']],
                                  MultiPart []],
                current = [1], stack = [[0, 0], [0]], tpath = []\<rparr>
               (istream_of ''y<? endfor ?>z'') = Inl ex \<and> mismatch_error ex)
   \<and> parse_loop example_env
        \<lparr>root = MultiPart [MultiPart [LogicPart [MultiPart [StringPart ''x'']] [LogicQuery ''a'']],
                           MultiPart []],
         current = [1], stack = [[0, 0], [0]], tpath = []\<rparr>
        (istream_of ''y<? endfor ?>z'') = Inl (JSONTemplateException ''Missing <? for ?> command'')
   \<and> parse_loop example_env
        \<lparr>root = MultiPart [MultiPart [LogicPart [MultiPart [StringPart ''x'']] [LogicQuery ''a'']],
                           MultiPart []],
         current = [1], stack = [[0, 0], [0]], tpath = []\<rparr>
        (istream_of ''y<? endif ?>z'') =
       Inr \<lparr>root = MultiPart [MultiPart [LogicPart [MultiPart [StringPart ''x'']] [LogicQuery ''a''],
                                        StringPart ''z''],
                             MultiPart [StringPart ''y'']],
            current = [0], stack = [], tpath = []\<rparr>
   \<and> (\<lparr>root = MultiPart [MultiPart [LogicPart [MultiPart []] [LogicQuery ''a'']]],
          current = [0, 0, 0], stack = [[0, 0], [0]], tpath = []\<rparr>,
       istream_of ''A<? endfor ?>'')
       \<in> set (turns example_env
                 \<lparr>root = MultiPart [MultiPart []], current = [0], stack = [], tpath = []\<rparr>
                 (istream_of ''<? if a ?>A<? endfor ?>''))
   \<and> next_command (istream_of ''A<? endfor ?>'') = ''endfor''
   \<and> \<not> open_loop \<lparr>root = MultiPart [MultiPart [LogicPart [MultiPart []] [LogicQuery ''a'']]],
                     current = [0, 0, 0], stack = [[0, 0], [0]], tpath = []\<rparr>
   \<and> (\<exists>ex. parse_loop example_env
               \<lparr>root = MultiPart [MultiPart []], current = [0], stack = [], tpath = []\<rparr>
               (istream_of ''<? if a ?>A<? endfor ?>'') = Inl ex \<and> mismatch_error ex)"
proof -
  let ?st = "\<lparr>root = MultiPart [MultiPart []], current = [0], stack = [], tpath = []\<rparr>"
  let ?left = "\<lparr>root = MultiPart [MultiPart [LogicPart [MultiPart [StringPart ''x'']]
                                                 [LogicQuery ''a'']],
                                  MultiPart []],
                current = [1], stack = [[0, 0], [0]], tpath = []\<rparr>"
  let ?stif = "\<lparr>root = MultiPart [MultiPart [LogicPart [MultiPart []] [LogicQuery ''a'']]],
                current = [0, 0, 0], stack = [[0, 0], [0]], tpath = []\<rparr>"
  have g: "\<And>src. good (istream_of src)" by (simp add: good_def istream_of_def)
  have h2: "next_command (istream_of ''<? endif ?>'') = ''endif''" by (rule next_command_endif)
  have h3: "\<not> open_conditional ?st" by (simp add: open_conditional_def)
  have h4: "\<not> open_loop ?st" by (simp add: open_loop_def)
  have q: "fst (readQuery (directive_input (istream_of ''<? elsif a ?>''))) \<noteq> []"
    by (simp add: terminator_instances(2))
  have a: "\<exists>ex. parse_loop example_env ?st (istream_of ''<? endif ?>'') = Inl ex \<and> mismatch_error ex"
    using block_terminator_matching[OF g, of "''<? endif ?>''" ?st example_env, THEN conjunct1]
      h2 h3 by blast
  have b: "\<exists>ex. parse_loop example_env ?st (istream_of ''<? elsif a ?>'') = Inl ex \<and> mismatch_error ex"
    using block_terminator_matching[OF g, of "''<? elsif a ?>''" ?st example_env,
        THEN conjunct2, THEN conjunct1]
      terminator_instances(1) q h3 by blast
  have c: "\<exists>ex. parse_loop example_env ?st (istream_of ''<? endfor ?>'') = Inl ex \<and> mismatch_error ex"
    using block_terminator_matching[OF g, of "''<? endfor ?>''" ?st example_env,
        THEN conjunct2, THEN conjunct2, THEN conjunct1]
      terminator_instances(3) h4 by blast
  have oc: "opened (commands_run example_env ?st (istream_of ''<? if a ?>A<? endif ?>'')) =
            closed (commands_run example_env ?st (istream_of ''<? if a ?>A<? endif ?>''))"
    unfolding terminator_instances(5) by (simp add: opened_def closed_def)
  have d: "stack \<lparr>root = MultiPart [MultiPart [LogicPart [MultiPart [StringPart ''A'']] [LogicQuery ''a'']]],
              current = [0], stack = [], tpath = []\<rparr> = []"
    using block_terminator_matching[OF g, of "''<? if a ?>A<? endif ?>''" ?st example_env,
        THEN conjunct2, THEN conjunct2, THEN conjunct2, THEN conjunct1]
      terminator_instances(4) oc by simp
  have l: "\<exists>ex. parse_loop example_env ?left (istream_of ''y<? endfor ?>z'') = Inl ex
                \<and> mismatch_error ex"
    using block_terminator_matching[OF g, of "''y<? endfor ?>z''" ?left example_env,
        THEN conjunct2, THEN conjunct2, THEN conjunct1]
      leftover_stack_instances(1,3) by blast
  have mem: "(?stif, istream_of ''A<? endfor ?>'')
               \<in> set (turns example_env ?st (istream_of ''<? if a ?>A<? endfor ?>''))"
    unfolding leftover_stack_instances(6) by simp
  have "case (?stif, istream_of ''A<? endfor ?>'') of (sti, si) \<Rightarrow>
              ((next_command si = ''else'' \<or> next_command si = ''endif'') \<and> \<not> open_conditional sti)
            \<or> ((next_command si = ''elsif'' \<or> next_command si = ''elif'')
                 \<and> fst (readQuery (directive_input si)) \<noteq> [] \<and> \<not> open_conditional sti)
            \<or> (next_command si = ''endfor'' \<and> \<not> open_loop sti) \<longrightarrow>
              (\<exists>ex. parse_loop example_env ?st (istream_of ''<? if a ?>A<? endfor ?>'') = Inl ex
                    \<and> mismatch_error ex)"
    using block_terminator_matching[OF g, of "''<? if a ?>A<? endfor ?>''" ?st example_env,
        THEN conjunct2, THEN conjunct2, THEN conjunct2, THEN conjunct2] mem
    by (rule bspec)
  then have t: "\<exists>ex. parse_loop example_env ?st (istream_of ''<? if a ?>A<? endfor ?>'') = Inl ex
                    \<and> mismatch_error ex"
    unfolding prod.case using leftover_stack_instances(7,8) by blast
  from g h2 h3 h4 a b c d oc q parse_endif_alone terminator_instances(1,3,4)
    l leftover_stack_instances(1,2,3,4,5,7,8) mem t
  show ?thesis by blast
qed

text \<open>
  C6 as stated fails for an \<open>elsif\<close> without a query: the query is read and checked
  before the stack is looked at, so \<open><? elsif ?>\<close> with no open block fails with the
  missing-query exception.
\<close>

theorem block_terminator_counterexample:
  "compile example_env ''<? elsif ?>'' = Inl (JSONTemplateException ''Missing query in <? elsif ?>'')
   \<and> next_command (istream_of ''<? elsif ?>'') = ''elsif''
   \<and> \<not> mismatch_error (JSONTemplateException ''Missing query in <? elsif ?>'')"
  by code_simp

lemma mismatch_examples:
  "compile example_env ''<? else ?>'' = Inl (JSONTemplateException ''Unexpected <? else ?> found'')"
  "compile example_env ''<? elsif a ?>'' =
     Inl (JSONTemplateException ''Unexpected <? elsif / elif ?> found'')"
  "compile example_env ''<? endfor ?>'' = Inl (JSONTemplateException ''Unexpected <? endfor ?> found'')"
  "compile example_env ''<? for x items ?><? endif ?>'' =
     Inl (JSONTemplateException ''Missing <? if ?> or <? ifexist ?> for <? endif ?>'')"
  "compile example_env ''<? for x items ?><? else ?>'' =
     Inl (JSONTemplateException ''Missing <? if ?> or <? ifexist ?> for <? else ?>'')"
  "compile example_env ''<? for x items ?><? elif a ?>'' =
     Inl (JSONTemplateException ''Missing <? if ?> or <? ifexist ?> for <? elsif / elif ?>'')"
  "compile example_env ''<? if a ?><? endfor ?>'' =
     Inl (JSONTemplateException ''Missing <? for ?> command'')"
  by code_simp+

end
